theory Spec2Isabelle
  imports Main "HOL-Library.Word" "HOL-Library.Multiset" "HOL-Library.Sublist"
begin

section \<open>The pipeline of precode.go as an interleaving transition system\<close>

text \<open>
  The program starts one Generator goroutine, \<open>NumOut\<close> Worker goroutines, \<open>NumOut\<close>
  anonymous collector goroutines, one goroutine that waits on the WaitGroup and closes
  \<open>chOut\<close>, and then drains \<open>chOut\<close> in \<open>main\<close>. Every goroutine is a small
  sequential program; its control point is a value of a datatype, and one step of the
  whole program is one step of one goroutine (or one rendezvous on an unbuffered
  channel, which moves the sender and the receiver together). Which goroutine moves is
  the scheduler's choice, given as an \<open>action\<close>. Time is not part of the state: the
  deadline of the context is the action \<open>Timeout\<close>, which may happen at any moment, and
  \<open>time.Sleep(d)\<close> is a control point that holds the duration \<open>d\<close> asked for; the step
  that leaves it is the end of the pause.
\<close>

type_synonym int64 = "64 word"

text \<open>Control points of \<open>Generator\<close> (lines 16-29).\<close>

datatype gpc =
    GIdle         \<comment> \<open>\<open>go Generator(...)\<close> not yet executed\<close>
  | GSelect       \<comment> \<open>at the \<open>select\<close> of line 20\<close>
  | GSend         \<comment> \<open>\<open>g++\<close> done, at \<open>ch <- g\<close>\<close>
  | GHookSum      \<comment> \<open>inside \<open>fn(g)\<close>, before \<open>atomic.AddInt64(&inputSum, i)\<close>\<close>
  | GHookCount    \<comment> \<open>inside \<open>fn(g)\<close>, before \<open>atomic.AddInt64(&inputCount, 1)\<close>\<close>
  | GDefer        \<comment> \<open>\<open>return\<close> taken, the deferred \<open>close(ch)\<close> pending\<close>
  | GDone

text \<open>Control points of \<open>Worker\<close> (lines 48-60).\<close>

datatype wpc =
    WIdle         \<comment> \<open>\<open>go Worker(...)\<close> not yet executed\<close>
  | WRecv         \<comment> \<open>at \<open>v, ok := <-in\<close>\<close>
  | WSend int64   \<comment> \<open>at \<open>out <- v\<close>, holding \<open>v\<close>\<close>
  | WSleep int64  \<comment> \<open>in \<open>time.Sleep(d)\<close>, with the \<open>Duration\<close> \<open>d\<close> in nanoseconds\<close>
  | WDefer        \<comment> \<open>\<open>break\<close> taken, the deferred \<open>close(out)\<close> pending\<close>
  | WDone

text \<open>Control points of the collector closure (lines 107-113).\<close>

datatype cpc =
    CIdle         \<comment> \<open>not yet started\<close>
  | CRecv         \<comment> \<open>at the receive of \<open>for val := range in\<close>\<close>
  | CInc int64    \<comment> \<open>holding \<open>val\<close>, at \<open>amounts[i]++\<close>\<close>
  | CSend int64   \<comment> \<open>at \<open>chOut <- val\<close>\<close>
  | CDefer        \<comment> \<open>loop left, the deferred \<open>wg.Done()\<close> pending\<close>
  | CDone

text \<open>Control points of the closing goroutine (lines 116-121).\<close>

datatype kpc = KIdle | KWait | KClose | KDone

text \<open>Control points of \<open>main\<close> (lines 62-149).\<close>

datatype mpc =
    MGoGen        \<comment> \<open>before \<open>go Generator\<close> (line 83)\<close>
  | MWorkers nat  \<comment> \<open>loop of line 91 with this \<open>i\<close>\<close>
  | MAdd nat      \<comment> \<open>loop of line 105 with this \<open>j\<close>, before \<open>wg.Add(1)\<close>\<close>
  | MGoColl nat   \<comment> \<open>same iteration, before the \<open>go func\<close>\<close>
  | MGoCloser     \<comment> \<open>before the \<open>go func\<close> of line 116\<close>
  | MRange        \<comment> \<open>at the receive of \<open>for v := range chOut\<close>\<close>
  | MAcc int64    \<comment> \<open>holding \<open>v\<close>, at \<open>count++; sum += v\<close>\<close>
  | MPrint        \<comment> \<open>the three \<open>Println\<close>\<close>
  | MCheckSum     \<comment> \<open>line 137\<close>
  | MCheckCount   \<comment> \<open>line 140\<close>
  | MPart nat     \<comment> \<open>loop of line 143 with this index\<close>
  | MCheckPart    \<comment> \<open>line 146\<close>
  | MReturn       \<comment> \<open>end of main\<close>

text \<open>What the process writes: the three report lines, and the diagnostics of
  \<open>log.Fatalf\<close> and of a runtime panic.\<close>

datatype line =
    Counts int64 int64
  | Sums int64 int64
  | Breakdown "int64 list"
  | FatalSums int64 int64
  | FatalCounts int64 int64
  | FatalSplit
  | Panic

record state =
  ctx_done :: bool                \<comment> \<open>\<open>ctx.Done()\<close> is closed\<close>
  exit_status :: "nat option"     \<comment> \<open>\<open>None\<close> while the process runs\<close>
  printed :: "line list"
  main_pc :: mpc
  gen_pc :: gpc
  gen_g :: int64                  \<comment> \<open>the local \<open>g\<close> of Generator\<close>
  chIn_closed :: bool
  inputSum :: int64
  inputCount :: int64
  wpc :: "wpc list"
  outs_closed :: "bool list"
  cpc :: "cpc list"
  amounts :: "int64 list"
  chOut :: "int64 list"           \<comment> \<open>the buffer of \<open>chOut\<close>, oldest first\<close>
  chOut_closed :: bool
  wg :: int
  closer_pc :: kpc
  count_res :: int64              \<comment> \<open>the variable \<open>count\<close> of main\<close>
  sum_res :: int64                \<comment> \<open>the variable \<open>sum\<close> of main\<close>
  \<comment> \<open>history variables: written, never read by a step\<close>
  sent :: "int64 list"            \<comment> \<open>values passed over \<open>chIn\<close>, in order\<close>
  hooked :: "int64 list"          \<comment> \<open>arguments of the calls of \<open>fn\<close>, in order\<close>
  wrecv :: "int64 list list"      \<comment> \<open>per worker: values it received from \<open>chIn\<close>\<close>
  outs_hist :: "int64 list list"  \<comment> \<open>per channel \<open>outs[i]\<close>: values passed over it\<close>
  cfwd :: "int64 list list"       \<comment> \<open>per collector: values it put into \<open>chOut\<close>\<close>
  agg :: "int64 list"             \<comment> \<open>values accumulated by main\<close>
  chIn_closes :: nat              \<comment> \<open>number of \<open>close(chIn)\<close> executed\<close>
  outs_closes :: "nat list"
  chOut_closes :: nat

definition NumOut :: nat where
  "NumOut = 25"

text \<open>The state in which \<open>main\<close> stands before line 83, for \<open>n\<close> workers. The slices
  \<open>outs\<close> and \<open>amounts\<close> and the channel \<open>chOut\<close> are created later in the source, with
  the zero values they have here; nothing reads them before.\<close>

definition init :: "nat \<Rightarrow> state" where
  "init n = \<lparr> ctx_done = False, exit_status = None, printed = [], main_pc = MGoGen,
     gen_pc = GIdle, gen_g = 0, chIn_closed = False, inputSum = 0, inputCount = 0,
     wpc = replicate n WIdle, outs_closed = replicate n False,
     cpc = replicate n CIdle, amounts = replicate n 0,
     chOut = [], chOut_closed = False, wg = 0, closer_pc = KIdle,
     count_res = 0, sum_res = 0,
     sent = [], hooked = [], wrecv = replicate n [], outs_hist = replicate n [],
     cfwd = replicate n [], agg = [],
     chIn_closes = 0, outs_closes = replicate n 0, chOut_closes = 0 \<rparr>"

text \<open>A runtime panic (close of a closed channel, send on a closed channel, negative
  WaitGroup counter) ends the process with status 2; \<open>log.Fatalf\<close> ends it with
  status 1.\<close>

definition panic :: "state \<Rightarrow> state" where
  "panic s = s\<lparr>exit_status := Some 2, printed := printed s @ [Panic]\<rparr>"

definition fatal :: "line \<Rightarrow> state \<Rightarrow> state" where
  "fatal l s = s\<lparr>exit_status := Some 1, printed := printed s @ [l]\<rparr>"

subsection \<open>Generator\<close>

definition Generator_step :: "state \<Rightarrow> state option" where
  "Generator_step s = (case gen_pc s of
      GIdle \<Rightarrow> None
    | GSelect \<Rightarrow>
        if ctx_done s then Some (s\<lparr>gen_pc := GDefer\<rparr>)
        else Some (s\<lparr>gen_g := gen_g s + 1, gen_pc := GSend\<rparr>)
    | GSend \<Rightarrow> if chIn_closed s then Some (panic s) else None
    | GHookSum \<Rightarrow>
        Some (s\<lparr>inputSum := inputSum s + gen_g s, hooked := hooked s @ [gen_g s],
                gen_pc := GHookCount\<rparr>)
    | GHookCount \<Rightarrow> Some (s\<lparr>inputCount := inputCount s + 1, gen_pc := GSelect\<rparr>)
    | GDefer \<Rightarrow>
        if chIn_closed s then Some (panic s)
        else Some (s\<lparr>chIn_closed := True, chIn_closes := Suc (chIn_closes s),
                     gen_pc := GDone\<rparr>)
    | GDone \<Rightarrow> None)"

text \<open>The rendezvous on the unbuffered \<open>chIn\<close>: the Generator stands at \<open>ch <- g\<close>
  and worker \<open>i\<close> at \<open>v, ok := <-in\<close>.\<close>

definition chIn_step :: "nat \<Rightarrow> nat \<Rightarrow> state \<Rightarrow> state option" where
  "chIn_step n i s =
    (if i < n \<and> gen_pc s = GSend \<and> wpc s ! i = WRecv \<and> \<not> chIn_closed s
     then Some (s\<lparr>gen_pc := GHookSum, wpc := (wpc s)[i := WSend (gen_g s)],
                  sent := sent s @ [gen_g s],
                  wrecv := (wrecv s)[i := wrecv s ! i @ [gen_g s]]\<rparr>)
     else None)"

subsection \<open>Worker\<close>

text \<open>\<open>time.Millisecond\<close>: a \<open>Duration\<close> is an \<open>int64\<close> of nanoseconds.\<close>

definition Millisecond :: int64 where
  "Millisecond = 1000000"

definition Worker_step :: "nat \<Rightarrow> nat \<Rightarrow> state \<Rightarrow> state option" where
  "Worker_step n i s =
    (if i < n then
      (case wpc s ! i of
          WIdle \<Rightarrow> None
        | WRecv \<Rightarrow> if chIn_closed s then Some (s\<lparr>wpc := (wpc s)[i := WDefer]\<rparr>) else None
        | WSend v \<Rightarrow> if outs_closed s ! i then Some (panic s) else None
        | WSleep d \<Rightarrow> Some (s\<lparr>wpc := (wpc s)[i := WRecv]\<rparr>)
        | WDefer \<Rightarrow>
            if outs_closed s ! i then Some (panic s)
            else Some (s\<lparr>outs_closed := (outs_closed s)[i := True],
                         outs_closes := (outs_closes s)[i := Suc (outs_closes s ! i)],
                         wpc := (wpc s)[i := WDone]\<rparr>)
        | WDone \<Rightarrow> None)
     else None)"

text \<open>The rendezvous on the unbuffered \<open>outs[i]\<close>: worker \<open>i\<close> stands at \<open>out <- v\<close>
  and collector \<open>i\<close> at the receive of its \<open>range\<close> loop.\<close>

definition outs_step :: "nat \<Rightarrow> nat \<Rightarrow> state \<Rightarrow> state option" where
  "outs_step n i s =
    (if i < n \<and> cpc s ! i = CRecv \<and> \<not> outs_closed s ! i then
      (case wpc s ! i of
          WSend v \<Rightarrow>
            Some (s\<lparr>wpc := (wpc s)[i := WSleep Millisecond], cpc := (cpc s)[i := CInc v],
                    outs_hist := (outs_hist s)[i := outs_hist s ! i @ [v]]\<rparr>)
        | _ \<Rightarrow> None)
     else None)"

subsection \<open>The collectors and the closing goroutine\<close>

definition collector_step :: "nat \<Rightarrow> nat \<Rightarrow> state \<Rightarrow> state option" where
  "collector_step n i s =
    (if i < n then
      (case cpc s ! i of
          CIdle \<Rightarrow> None
        | CRecv \<Rightarrow> if outs_closed s ! i then Some (s\<lparr>cpc := (cpc s)[i := CDefer]\<rparr>) else None
        | CInc v \<Rightarrow>
            Some (s\<lparr>amounts := (amounts s)[i := amounts s ! i + 1],
                    cpc := (cpc s)[i := CSend v]\<rparr>)
        | CSend v \<Rightarrow>
            if chOut_closed s then Some (panic s)
            else if length (chOut s) < n
            then Some (s\<lparr>chOut := chOut s @ [v], cfwd := (cfwd s)[i := cfwd s ! i @ [v]],
                         cpc := (cpc s)[i := CRecv]\<rparr>)
            else None
        | CDefer \<Rightarrow>
            if wg s - 1 < 0 then Some (panic s)
            else Some (s\<lparr>wg := wg s - 1, cpc := (cpc s)[i := CDone]\<rparr>)
        | CDone \<Rightarrow> None)
     else None)"

definition closer_step :: "state \<Rightarrow> state option" where
  "closer_step s = (case closer_pc s of
      KIdle \<Rightarrow> None
    | KWait \<Rightarrow> if wg s = 0 then Some (s\<lparr>closer_pc := KClose\<rparr>) else None
    | KClose \<Rightarrow>
        if chOut_closed s then Some (panic s)
        else Some (s\<lparr>chOut_closed := True, chOut_closes := Suc (chOut_closes s),
                     closer_pc := KDone\<rparr>)
    | KDone \<Rightarrow> None)"

subsection \<open>main\<close>

definition main_step :: "nat \<Rightarrow> state \<Rightarrow> state option" where
  "main_step n s = (case main_pc s of
      MGoGen \<Rightarrow> Some (s\<lparr>gen_pc := GSelect, main_pc := MWorkers 0\<rparr>)
    | MWorkers i \<Rightarrow>
        if i < n then Some (s\<lparr>wpc := (wpc s)[i := WRecv], main_pc := MWorkers (Suc i)\<rparr>)
        else Some (s\<lparr>main_pc := MAdd 0\<rparr>)
    | MAdd j \<Rightarrow>
        if j < n then Some (s\<lparr>wg := wg s + 1, main_pc := MGoColl j\<rparr>)
        else Some (s\<lparr>main_pc := MGoCloser\<rparr>)
    | MGoColl j \<Rightarrow> Some (s\<lparr>cpc := (cpc s)[j := CRecv], main_pc := MAdd (Suc j)\<rparr>)
    | MGoCloser \<Rightarrow> Some (s\<lparr>closer_pc := KWait, main_pc := MRange\<rparr>)
    | MRange \<Rightarrow>
        (case chOut s of
            v # rest \<Rightarrow> Some (s\<lparr>chOut := rest, main_pc := MAcc v\<rparr>)
          | [] \<Rightarrow> if chOut_closed s then Some (s\<lparr>main_pc := MPrint\<rparr>) else None)
    | MAcc v \<Rightarrow>
        Some (s\<lparr>count_res := count_res s + 1, sum_res := sum_res s + v,
                agg := agg s @ [v], main_pc := MRange\<rparr>)
    | MPrint \<Rightarrow>
        Some (s\<lparr>printed := printed s @ [Counts (inputCount s) (count_res s),
                    Sums (inputSum s) (sum_res s), Breakdown (amounts s)],
                main_pc := MCheckSum\<rparr>)
    | MCheckSum \<Rightarrow>
        if inputSum s \<noteq> sum_res s then Some (fatal (FatalSums (inputSum s) (sum_res s)) s)
        else Some (s\<lparr>main_pc := MCheckCount\<rparr>)
    | MCheckCount \<Rightarrow>
        if inputCount s \<noteq> count_res s
        then Some (fatal (FatalCounts (inputCount s) (count_res s)) s)
        else Some (s\<lparr>main_pc := MPart 0\<rparr>)
    | MPart k \<Rightarrow>
        if k < n
        then Some (s\<lparr>inputCount := inputCount s - amounts s ! k, main_pc := MPart (Suc k)\<rparr>)
        else Some (s\<lparr>main_pc := MCheckPart\<rparr>)
    | MCheckPart \<Rightarrow>
        if inputCount s \<noteq> 0 then Some (fatal FatalSplit s)
        else Some (s\<lparr>main_pc := MReturn\<rparr>)
    | MReturn \<Rightarrow> Some (s\<lparr>ctx_done := True, exit_status := Some 0\<rparr>))"

subsection \<open>The whole program\<close>

datatype action =
    Timeout           \<comment> \<open>the deadline of \<open>ctx\<close> passes\<close>
  | Main
  | Gen
  | ChIn nat          \<comment> \<open>Generator hands a value to this worker\<close>
  | Work nat
  | Outs nat          \<comment> \<open>this worker hands a value to its collector\<close>
  | Coll nat
  | Closer

definition step :: "nat \<Rightarrow> action \<Rightarrow> state \<Rightarrow> state option" where
  "step n a s =
    (if exit_status s \<noteq> None then None
     else case a of
        Timeout \<Rightarrow> Some (s\<lparr>ctx_done := True\<rparr>)
      | Main \<Rightarrow> main_step n s
      | Gen \<Rightarrow> Generator_step s
      | ChIn i \<Rightarrow> chIn_step n i s
      | Work i \<Rightarrow> Worker_step n i s
      | Outs i \<Rightarrow> outs_step n i s
      | Coll i \<Rightarrow> collector_step n i s
      | Closer \<Rightarrow> closer_step s)"

fun run :: "nat \<Rightarrow> state \<Rightarrow> action list \<Rightarrow> state option" where
  "run n s [] = Some s"
| "run n s (a # as) = (case step n a s of None \<Rightarrow> None | Some s' \<Rightarrow> run n s' as)"

section \<open>The invariant\<close>

text \<open>What a control point still holds, and where \<open>main\<close> stands.\<close>

fun w_pending :: "wpc \<Rightarrow> int64 list" where
  "w_pending (WSend v) = [v]"
| "w_pending _ = []"

text \<open>The pause a worker is in: every pause is the one of line 57.\<close>

fun w_delay :: "wpc \<Rightarrow> int64" where
  "w_delay (WSleep d) = d"
| "w_delay _ = Millisecond"

fun c_pending :: "cpc \<Rightarrow> int64 list" where
  "c_pending (CInc v) = [v]"
| "c_pending (CSend v) = [v]"
| "c_pending _ = []"

fun c_counted :: "cpc \<Rightarrow> int64" where
  "c_counted (CSend v) = 1"
| "c_counted _ = 0"

fun m_pending :: "mpc \<Rightarrow> int64 list" where
  "m_pending (MAcc v) = [v]"
| "m_pending _ = []"

fun c_active :: "cpc \<Rightarrow> nat" where
  "c_active CIdle = 0"
| "c_active CDone = 0"
| "c_active _ = 1"

fun w_spawned :: "mpc \<Rightarrow> nat \<Rightarrow> bool" where
  "w_spawned MGoGen i = False"
| "w_spawned (MWorkers k) i = (i < k)"
| "w_spawned _ i = True"

fun c_spawned :: "mpc \<Rightarrow> nat \<Rightarrow> bool" where
  "c_spawned MGoGen i = False"
| "c_spawned (MWorkers k) i = False"
| "c_spawned (MAdd k) i = (i < k)"
| "c_spawned (MGoColl k) i = (i < k)"
| "c_spawned _ i = True"

fun m_setup :: "mpc \<Rightarrow> bool" where
  "m_setup MGoGen = True"
| "m_setup (MWorkers k) = True"
| "m_setup (MAdd k) = True"
| "m_setup (MGoColl k) = True"
| "m_setup MGoCloser = True"
| "m_setup _ = False"

fun m_post :: "mpc \<Rightarrow> bool" where
  "m_post MPrint = True"
| "m_post MCheckSum = True"
| "m_post MCheckCount = True"
| "m_post (MPart k) = True"
| "m_post MCheckPart = True"
| "m_post MReturn = True"
| "m_post _ = False"

fun m_bound :: "nat \<Rightarrow> mpc \<Rightarrow> bool" where
  "m_bound n (MWorkers k) = (k \<le> n)"
| "m_bound n (MAdd k) = (k \<le> n)"
| "m_bound n (MGoColl k) = (k < n)"
| "m_bound n (MPart k) = (k \<le> n)"
| "m_bound n _ = True"

fun m_adding :: "mpc \<Rightarrow> int" where
  "m_adding (MGoColl k) = 1"
| "m_adding _ = 0"

fun part_done :: "mpc \<Rightarrow> int64 list \<Rightarrow> int64 list" where
  "part_done (MPart k) xs = take k xs"
| "part_done MCheckPart xs = xs"
| "part_done MReturn xs = xs"
| "part_done _ xs = []"

fun m_printed :: "mpc \<Rightarrow> bool" where
  "m_printed MCheckSum = True"
| "m_printed MCheckCount = True"
| "m_printed (MPart k) = True"
| "m_printed MCheckPart = True"
| "m_printed MReturn = True"
| "m_printed _ = False"

definition lens :: "nat \<Rightarrow> state \<Rightarrow> bool" where
  "lens n s \<longleftrightarrow> length (wpc s) = n \<and> length (outs_closed s) = n \<and> length (cpc s) = n
     \<and> length (amounts s) = n \<and> length (wrecv s) = n \<and> length (outs_hist s) = n
     \<and> length (cfwd s) = n \<and> length (outs_closes s) = n"

definition spawn_inv :: "nat \<Rightarrow> state \<Rightarrow> bool" where
  "spawn_inv n s \<longleftrightarrow> m_bound n (main_pc s)
     \<and> (gen_pc s = GIdle \<longleftrightarrow> main_pc s = MGoGen)
     \<and> (\<forall>i<n. wpc s ! i = WIdle \<longleftrightarrow> \<not> w_spawned (main_pc s) i)
     \<and> (\<forall>i<n. cpc s ! i = CIdle \<longleftrightarrow> \<not> c_spawned (main_pc s) i)
     \<and> (closer_pc s = KIdle \<longleftrightarrow> m_setup (main_pc s))"

text \<open>The list \<open>1, 2, ..., k\<close> of 64-bit values.\<close>

definition counting :: "int64 list \<Rightarrow> bool" where
  "counting xs \<longleftrightarrow> xs = map of_nat [1..<Suc (length xs)]"

definition gen_inv :: "nat \<Rightarrow> state \<Rightarrow> bool" where
  "gen_inv n s \<longleftrightarrow> counting (hooked s)
     \<and> gen_g s = of_nat (length (hooked s))
          + (if gen_pc s = GSend \<or> gen_pc s = GHookSum then 1 else 0)
     \<and> sent s = hooked s @ (if gen_pc s = GHookSum then [gen_g s] else [])
     \<and> inputSum s = sum_list (hooked s)
     \<and> (chIn_closed s \<longleftrightarrow> gen_pc s = GDone)
     \<and> chIn_closes s = (if gen_pc s = GDone then 1 else 0)
     \<and> (gen_pc s = GDefer \<or> gen_pc s = GDone \<longrightarrow> ctx_done s)
     \<and> (gen_pc s = GHookSum \<or> gen_pc s = GHookCount \<longrightarrow> 0 < n)"

definition count_inv :: "state \<Rightarrow> bool" where
  "count_inv s \<longleftrightarrow>
     inputCount s + (if gen_pc s = GHookCount then 1 else 0)
       = of_nat (length (hooked s)) - sum_list (part_done (main_pc s) (amounts s))"

definition worker_inv :: "nat \<Rightarrow> state \<Rightarrow> bool" where
  "worker_inv n s \<longleftrightarrow> (\<forall>i<n.
       (wpc s ! i = WDefer \<or> wpc s ! i = WDone \<longrightarrow> chIn_closed s)
     \<and> (outs_closed s ! i \<longleftrightarrow> wpc s ! i = WDone)
     \<and> outs_closes s ! i = (if wpc s ! i = WDone then 1 else 0)
     \<and> wrecv s ! i = outs_hist s ! i @ w_pending (wpc s ! i)
     \<and> w_delay (wpc s ! i) = Millisecond)"

definition coll_inv :: "nat \<Rightarrow> state \<Rightarrow> bool" where
  "coll_inv n s \<longleftrightarrow> (\<forall>i<n.
       (cpc s ! i = CDefer \<or> cpc s ! i = CDone \<longrightarrow> outs_closed s ! i)
     \<and> outs_hist s ! i = cfwd s ! i @ c_pending (cpc s ! i)
     \<and> amounts s ! i = of_nat (length (cfwd s ! i)) + c_counted (cpc s ! i))"

definition wg_inv :: "state \<Rightarrow> bool" where
  "wg_inv s \<longleftrightarrow> wg s = int (sum_list (map c_active (cpc s))) + m_adding (main_pc s)"

definition closer_inv :: "nat \<Rightarrow> state \<Rightarrow> bool" where
  "closer_inv n s \<longleftrightarrow>
       (closer_pc s = KClose \<or> closer_pc s = KDone \<longrightarrow> (\<forall>i<n. cpc s ! i = CDone))
     \<and> (chOut_closed s \<longleftrightarrow> closer_pc s = KDone)
     \<and> chOut_closes s = (if closer_pc s = KDone then 1 else 0)
     \<and> length (chOut s) \<le> n"

definition main_inv :: "state \<Rightarrow> bool" where
  "main_inv s \<longleftrightarrow> (m_post (main_pc s) \<longrightarrow> chOut_closed s \<and> chOut s = [])
     \<and> count_res s = of_nat (length (agg s)) \<and> sum_res s = sum_list (agg s)"

definition flow_inv :: "state \<Rightarrow> bool" where
  "flow_inv s \<longleftrightarrow> mset (sent s) = mset (concat (wrecv s))
     \<and> mset (concat (cfwd s)) = mset (agg s) + mset (chOut s) + mset (m_pending (main_pc s))"

definition exit_inv :: "state \<Rightarrow> bool" where
  "exit_inv s \<longleftrightarrow> (exit_status s = None \<or> exit_status s = Some 0 \<and> main_pc s = MReturn)
     \<and> printed s = (if m_printed (main_pc s)
          then [Counts (count_res s) (count_res s), Sums (sum_res s) (sum_res s),
                Breakdown (amounts s)]
          else [])"

definition inv :: "nat \<Rightarrow> state \<Rightarrow> bool" where
  "inv n s \<longleftrightarrow> lens n s \<and> spawn_inv n s \<and> gen_inv n s \<and> count_inv s \<and> worker_inv n s
     \<and> coll_inv n s \<and> wg_inv s \<and> closer_inv n s \<and> main_inv s \<and> flow_inv s \<and> exit_inv s"

text \<open>Control points at which the Generator holds no value that it has produced and not
  yet accounted.\<close>

fun g_resting :: "gpc \<Rightarrow> bool" where
  "g_resting GSend = False"
| "g_resting GHookSum = False"
| "g_resting GHookCount = False"
| "g_resting _ = True"


text \<open>The lines written by \<open>log.Fatalf\<close>.\<close>

fun is_diagnostic :: "line \<Rightarrow> bool" where
  "is_diagnostic (FatalSums a b) = True"
| "is_diagnostic (FatalCounts a b) = True"
| "is_diagnostic FatalSplit = True"
| "is_diagnostic _ = False"

section \<open>Schedules used as examples\<close>

text \<open>A complete run in which exactly one value travels from the Generator through
  worker 0 and collector 0 to \<open>main\<close>, the deadline passes, and every goroutine
  finishes; it ends where \<open>main\<close> leaves its \<open>range\<close> loop.\<close>

definition one_value_run :: "nat \<Rightarrow> action list" where
  "one_value_run n = replicate (3 * n + 4) Main
     @ [Gen, ChIn 0, Gen, Gen, Outs 0, Coll 0, Coll 0, Work 0, Main, Main, Timeout, Gen, Gen]
     @ concat (map (\<lambda>i. [Work i, Work i, Coll i, Coll i]) [0..<n])
     @ [Closer, Closer, Main]"


text \<open>A complete run without any value: the Generator finds the context cancelled at
  its first \<open>select\<close>.\<close>

definition expired_run :: "nat \<Rightarrow> action list" where
  "expired_run n = replicate (3 * n + 4) Main @ [Gen, Gen]
     @ concat (map (\<lambda>i. [Work i, Work i, Coll i, Coll i]) [0..<n])
     @ [Closer, Closer, Main]"

text \<open>A complete run with three values. Worker 0 takes 1 and holds it; worker 1 takes 2
  and passes it on, and \<open>main\<close> reads it first; then worker 0 passes 1 on and later
  takes 3. After that the deadline passes and every goroutine finishes. The run ends
  where \<open>main\<close> leaves its \<open>range\<close> loop.\<close>

definition three_value_run :: "nat \<Rightarrow> action list" where
  "three_value_run n = replicate (3 * n + 4) Main
     @ [Gen, ChIn 0, Gen, Gen, Gen, ChIn 1, Gen, Gen]
     @ [Outs 1, Coll 1, Coll 1, Work 1, Main, Main]
     @ [Outs 0, Coll 0, Coll 0, Work 0, Main, Main]
     @ [Gen, ChIn 0, Gen, Gen, Outs 0, Coll 0, Coll 0, Work 0, Main, Main]
     @ [Timeout, Gen, Gen]
     @ concat (map (\<lambda>i. [Work i, Work i, Coll i, Coll i]) [0..<n])
     @ [Closer, Closer, Main]"

text \<open>The start of a run: everything is started, one value has gone to worker 0 and
  has been accounted by the hook, and the Generator stands at its \<open>select\<close> again, the
  deadline still ahead.\<close>

definition second_select_run :: "nat \<Rightarrow> action list" where
  "second_select_run n = replicate (3 * n + 4) Main @ [Gen, ChIn 0, Gen, Gen]"

section \<open>The transitions, one by one\<close>

text \<open>Each step function is a case distinction on a control point. The rules below
  list the transitions it can make, so that a property of the state after a step is
  proved transition by transition.\<close>

lemma Generator_step_cases [consumes 1, case_names g_sel_done g_sel_next g_send_closed
    g_hook_sum g_hook_count g_close_twice g_close]:
  assumes "Generator_step s = Some s'"
    and "gen_pc s = GSelect \<Longrightarrow> ctx_done s \<Longrightarrow> P (s\<lparr>gen_pc := GDefer\<rparr>)"
    and "gen_pc s = GSelect \<Longrightarrow> \<not> ctx_done s \<Longrightarrow>
      P (s\<lparr>gen_g := gen_g s + 1, gen_pc := GSend\<rparr>)"
    and "gen_pc s = GSend \<Longrightarrow> chIn_closed s \<Longrightarrow> P (panic s)"
    and "gen_pc s = GHookSum \<Longrightarrow>
      P (s\<lparr>inputSum := inputSum s + gen_g s, hooked := hooked s @ [gen_g s],
           gen_pc := GHookCount\<rparr>)"
    and "gen_pc s = GHookCount \<Longrightarrow>
      P (s\<lparr>inputCount := inputCount s + 1, gen_pc := GSelect\<rparr>)"
    and "gen_pc s = GDefer \<Longrightarrow> chIn_closed s \<Longrightarrow> P (panic s)"
    and "gen_pc s = GDefer \<Longrightarrow> \<not> chIn_closed s \<Longrightarrow>
      P (s\<lparr>chIn_closed := True, chIn_closes := Suc (chIn_closes s), gen_pc := GDone\<rparr>)"
  shows "P s'"
  using assms by (auto simp: Generator_step_def split: gpc.splits if_splits)

lemma chIn_step_cases [consumes 1, case_names chin_pass]:
  assumes "chIn_step n i s = Some s'"
    and "i < n \<Longrightarrow> gen_pc s = GSend \<Longrightarrow> wpc s ! i = WRecv \<Longrightarrow> \<not> chIn_closed s \<Longrightarrow>
      P (s\<lparr>gen_pc := GHookSum, wpc := (wpc s)[i := WSend (gen_g s)],
           sent := sent s @ [gen_g s],
           wrecv := (wrecv s)[i := wrecv s ! i @ [gen_g s]]\<rparr>)"
  shows "P s'"
  using assms by (auto simp: chIn_step_def split: if_splits)

lemma Worker_step_cases [consumes 1, case_names w_recv_closed w_send_closed w_sleep
    w_close_twice w_close]:
  assumes "Worker_step n i s = Some s'"
    and "i < n \<Longrightarrow> wpc s ! i = WRecv \<Longrightarrow> chIn_closed s \<Longrightarrow>
      P (s\<lparr>wpc := (wpc s)[i := WDefer]\<rparr>)"
    and "\<And>v. i < n \<Longrightarrow> wpc s ! i = WSend v \<Longrightarrow> outs_closed s ! i \<Longrightarrow> P (panic s)"
    and "\<And>d. i < n \<Longrightarrow> wpc s ! i = WSleep d \<Longrightarrow> P (s\<lparr>wpc := (wpc s)[i := WRecv]\<rparr>)"
    and "i < n \<Longrightarrow> wpc s ! i = WDefer \<Longrightarrow> outs_closed s ! i \<Longrightarrow> P (panic s)"
    and "i < n \<Longrightarrow> wpc s ! i = WDefer \<Longrightarrow> \<not> outs_closed s ! i \<Longrightarrow>
      P (s\<lparr>outs_closed := (outs_closed s)[i := True],
           outs_closes := (outs_closes s)[i := Suc (outs_closes s ! i)],
           wpc := (wpc s)[i := WDone]\<rparr>)"
  shows "P s'"
  using assms by (auto simp: Worker_step_def split: wpc.splits if_splits)

lemma outs_step_cases [consumes 1, case_names outs_pass]:
  assumes "outs_step n i s = Some s'"
    and "\<And>v. i < n \<Longrightarrow> cpc s ! i = CRecv \<Longrightarrow> \<not> outs_closed s ! i \<Longrightarrow>
      wpc s ! i = WSend v \<Longrightarrow>
      P (s\<lparr>wpc := (wpc s)[i := WSleep Millisecond], cpc := (cpc s)[i := CInc v],
           outs_hist := (outs_hist s)[i := outs_hist s ! i @ [v]]\<rparr>)"
  shows "P s'"
  using assms by (auto simp: outs_step_def split: wpc.splits if_splits)

lemma collector_step_cases [consumes 1, case_names c_recv_closed c_inc c_send_closed
    c_send c_done_neg c_done]:
  assumes "collector_step n i s = Some s'"
    and "i < n \<Longrightarrow> cpc s ! i = CRecv \<Longrightarrow> outs_closed s ! i \<Longrightarrow>
      P (s\<lparr>cpc := (cpc s)[i := CDefer]\<rparr>)"
    and "\<And>v. i < n \<Longrightarrow> cpc s ! i = CInc v \<Longrightarrow>
      P (s\<lparr>amounts := (amounts s)[i := amounts s ! i + 1], cpc := (cpc s)[i := CSend v]\<rparr>)"
    and "\<And>v. i < n \<Longrightarrow> cpc s ! i = CSend v \<Longrightarrow> chOut_closed s \<Longrightarrow> P (panic s)"
    and "\<And>v. i < n \<Longrightarrow> cpc s ! i = CSend v \<Longrightarrow> \<not> chOut_closed s \<Longrightarrow>
      length (chOut s) < n \<Longrightarrow>
      P (s\<lparr>chOut := chOut s @ [v], cfwd := (cfwd s)[i := cfwd s ! i @ [v]],
           cpc := (cpc s)[i := CRecv]\<rparr>)"
    and "i < n \<Longrightarrow> cpc s ! i = CDefer \<Longrightarrow> wg s - 1 < 0 \<Longrightarrow> P (panic s)"
    and "i < n \<Longrightarrow> cpc s ! i = CDefer \<Longrightarrow> \<not> wg s - 1 < 0 \<Longrightarrow>
      P (s\<lparr>wg := wg s - 1, cpc := (cpc s)[i := CDone]\<rparr>)"
  shows "P s'"
  using assms by (auto simp: collector_step_def split: cpc.splits if_splits)

lemma closer_step_cases [consumes 1, case_names k_wait k_close_twice k_close]:
  assumes "closer_step s = Some s'"
    and "closer_pc s = KWait \<Longrightarrow> wg s = 0 \<Longrightarrow> P (s\<lparr>closer_pc := KClose\<rparr>)"
    and "closer_pc s = KClose \<Longrightarrow> chOut_closed s \<Longrightarrow> P (panic s)"
    and "closer_pc s = KClose \<Longrightarrow> \<not> chOut_closed s \<Longrightarrow>
      P (s\<lparr>chOut_closed := True, chOut_closes := Suc (chOut_closes s), closer_pc := KDone\<rparr>)"
  shows "P s'"
  using assms by (auto simp: closer_step_def split: kpc.splits if_splits)

lemma main_step_cases [consumes 1, case_names m_go_gen m_go_worker m_workers_end m_add
    m_add_end m_go_coll m_go_closer m_recv m_range_end m_acc m_print m_sum_bad m_sum_ok
    m_count_bad m_count_ok m_part m_part_end m_split_bad m_split_ok m_return]:
  assumes "main_step n s = Some s'"
    and "main_pc s = MGoGen \<Longrightarrow> P (s\<lparr>gen_pc := GSelect, main_pc := MWorkers 0\<rparr>)"
    and "\<And>i. main_pc s = MWorkers i \<Longrightarrow> i < n \<Longrightarrow>
      P (s\<lparr>wpc := (wpc s)[i := WRecv], main_pc := MWorkers (Suc i)\<rparr>)"
    and "\<And>i. main_pc s = MWorkers i \<Longrightarrow> \<not> i < n \<Longrightarrow> P (s\<lparr>main_pc := MAdd 0\<rparr>)"
    and "\<And>j. main_pc s = MAdd j \<Longrightarrow> j < n \<Longrightarrow> P (s\<lparr>wg := wg s + 1, main_pc := MGoColl j\<rparr>)"
    and "\<And>j. main_pc s = MAdd j \<Longrightarrow> \<not> j < n \<Longrightarrow> P (s\<lparr>main_pc := MGoCloser\<rparr>)"
    and "\<And>j. main_pc s = MGoColl j \<Longrightarrow>
      P (s\<lparr>cpc := (cpc s)[j := CRecv], main_pc := MAdd (Suc j)\<rparr>)"
    and "main_pc s = MGoCloser \<Longrightarrow> P (s\<lparr>closer_pc := KWait, main_pc := MRange\<rparr>)"
    and "\<And>v rest. main_pc s = MRange \<Longrightarrow> chOut s = v # rest \<Longrightarrow>
      P (s\<lparr>chOut := rest, main_pc := MAcc v\<rparr>)"
    and "main_pc s = MRange \<Longrightarrow> chOut s = [] \<Longrightarrow> chOut_closed s \<Longrightarrow>
      P (s\<lparr>main_pc := MPrint\<rparr>)"
    and "\<And>v. main_pc s = MAcc v \<Longrightarrow>
      P (s\<lparr>count_res := count_res s + 1, sum_res := sum_res s + v,
           agg := agg s @ [v], main_pc := MRange\<rparr>)"
    and "main_pc s = MPrint \<Longrightarrow>
      P (s\<lparr>printed := printed s @ [Counts (inputCount s) (count_res s),
             Sums (inputSum s) (sum_res s), Breakdown (amounts s)],
           main_pc := MCheckSum\<rparr>)"
    and "main_pc s = MCheckSum \<Longrightarrow> inputSum s \<noteq> sum_res s \<Longrightarrow>
      P (fatal (FatalSums (inputSum s) (sum_res s)) s)"
    and "main_pc s = MCheckSum \<Longrightarrow> inputSum s = sum_res s \<Longrightarrow>
      P (s\<lparr>main_pc := MCheckCount\<rparr>)"
    and "main_pc s = MCheckCount \<Longrightarrow> inputCount s \<noteq> count_res s \<Longrightarrow>
      P (fatal (FatalCounts (inputCount s) (count_res s)) s)"
    and "main_pc s = MCheckCount \<Longrightarrow> inputCount s = count_res s \<Longrightarrow>
      P (s\<lparr>main_pc := MPart 0\<rparr>)"
    and "\<And>k. main_pc s = MPart k \<Longrightarrow> k < n \<Longrightarrow>
      P (s\<lparr>inputCount := inputCount s - amounts s ! k, main_pc := MPart (Suc k)\<rparr>)"
    and "\<And>k. main_pc s = MPart k \<Longrightarrow> \<not> k < n \<Longrightarrow> P (s\<lparr>main_pc := MCheckPart\<rparr>)"
    and "main_pc s = MCheckPart \<Longrightarrow> inputCount s \<noteq> 0 \<Longrightarrow> P (fatal FatalSplit s)"
    and "main_pc s = MCheckPart \<Longrightarrow> inputCount s = 0 \<Longrightarrow> P (s\<lparr>main_pc := MReturn\<rparr>)"
    and "main_pc s = MReturn \<Longrightarrow> P (s\<lparr>ctx_done := True, exit_status := Some 0\<rparr>)"
  shows "P s'"
  using assms by (auto simp: main_step_def split: mpc.splits if_splits list.splits)

lemma step_cases [consumes 1, case_names Timeout Main Gen ChIn Work Outs Coll Closer]:
  assumes "step n a s = Some s'"
    and "exit_status s = None \<Longrightarrow> P (s\<lparr>ctx_done := True\<rparr>)"
    and "exit_status s = None \<Longrightarrow> main_step n s = Some s' \<Longrightarrow> P s'"
    and "exit_status s = None \<Longrightarrow> Generator_step s = Some s' \<Longrightarrow> P s'"
    and "\<And>i. exit_status s = None \<Longrightarrow> chIn_step n i s = Some s' \<Longrightarrow> P s'"
    and "\<And>i. exit_status s = None \<Longrightarrow> Worker_step n i s = Some s' \<Longrightarrow> P s'"
    and "\<And>i. exit_status s = None \<Longrightarrow> outs_step n i s = Some s' \<Longrightarrow> P s'"
    and "\<And>i. exit_status s = None \<Longrightarrow> collector_step n i s = Some s' \<Longrightarrow> P s'"
    and "exit_status s = None \<Longrightarrow> closer_step s = Some s' \<Longrightarrow> P s'"
  shows "P s'"
  using assms by (cases a) (auto simp: step_def split: if_splits)

section \<open>Consequences of the invariant\<close>

lemma invD:
  assumes "inv n s"
  shows "lens n s" "spawn_inv n s" "gen_inv n s" "count_inv s" "worker_inv n s"
    "coll_inv n s" "wg_inv s" "closer_inv n s" "main_inv s" "flow_inv s" "exit_inv s"
  using assms by (simp_all add: inv_def)

lemma counting_Nil: "counting []"
  by (simp add: counting_def)

lemma counting_snoc: "counting xs \<Longrightarrow> counting (xs @ [of_nat (length xs) + 1])"
  unfolding counting_def by simp

subsection \<open>Lists updated at one index\<close>

lemma sum_list_map_update:
  fixes f :: "'a \<Rightarrow> nat"
  shows "i < length xs \<Longrightarrow> sum_list (map f (xs[i := y])) + f (xs ! i) = sum_list (map f xs) + f y"
proof (induction xs arbitrary: i)
  case Nil then show ?case by simp
next
  case (Cons x xs)
  show ?case
  proof (cases i)
    case 0 then show ?thesis by simp
  next
    case (Suc j)
    with Cons.prems have "j < length xs" by simp
    from Cons.IH [OF this] show ?thesis using Suc by simp
  qed
qed

lemma mset_concat_snoc_at:
  "i < length xss \<Longrightarrow> mset (concat (xss[i := xss ! i @ [v]])) = add_mset v (mset (concat xss))"
proof (induction xss arbitrary: i)
  case Nil then show ?case by simp
next
  case (Cons xs xss) then show ?case by (cases i) simp_all
qed

lemma sum_list_length_concat:
  "sum_list (map (\<lambda>xs. of_nat (length xs)) xss) = (of_nat (length (concat xss)) :: 'a :: semiring_1)"
  by (induction xss) simp_all

lemma sum_list_active_ge:
  "i < length xs \<Longrightarrow> f (xs ! i) \<le> sum_list (map f xs)" for f :: "'a \<Rightarrow> nat"
  by (simp add: member_le_sum_list)

subsection \<open>When \<open>chOut\<close> is closed, every goroutine before it has finished\<close>

lemma closed_collectors:
  assumes "inv n s" "chOut_closed s" "i < n"
  shows "cpc s ! i = CDone"
  using assms invD(8) [OF assms(1)] by (simp add: closer_inv_def)

lemma closed_workers:
  assumes "inv n s" "chOut_closed s" "i < n"
  shows "wpc s ! i = WDone"
  using closed_collectors [OF assms] assms(3) invD(5,6) [OF assms(1)]
  by (simp add: worker_inv_def coll_inv_def)

lemma closed_generator:
  assumes "inv n s" "chOut_closed s"
  shows "gen_pc s \<noteq> GHookSum" "gen_pc s \<noteq> GHookCount" "0 < n \<Longrightarrow> gen_pc s = GDone"
proof -
  note g = invD(3) [OF assms(1), unfolded gen_inv_def]
  have d: "gen_pc s = GDone" if "0 < n"
  proof -
    have "wpc s ! 0 = WDone" by (rule closed_workers [OF assms that])
    moreover have "wpc s ! 0 = WDefer \<or> wpc s ! 0 = WDone \<longrightarrow> chIn_closed s"
      using invD(5) [OF assms(1)] that unfolding worker_inv_def by blast
    ultimately have "chIn_closed s" by simp
    with g show ?thesis by blast
  qed
  then show "0 < n \<Longrightarrow> gen_pc s = GDone" .
  have h: "gen_pc s = GHookSum \<or> gen_pc s = GHookCount \<longrightarrow> 0 < n"
    using g by blast
  show "gen_pc s \<noteq> GHookSum"
  proof
    assume a: "gen_pc s = GHookSum"
    with h have "0 < n" by blast
    from d [OF this] a show False by simp
  qed
  show "gen_pc s \<noteq> GHookCount"
  proof
    assume a: "gen_pc s = GHookCount"
    with h have "0 < n" by blast
    from d [OF this] a show False by simp
  qed
qed

lemma closed_histories:
  assumes "inv n s" "chOut_closed s"
  shows "wrecv s = outs_hist s" "outs_hist s = cfwd s"
    "amounts s = map (\<lambda>xs. of_nat (length xs)) (cfwd s)"
proof -
  note l = invD(1) [OF assms(1), unfolded lens_def]
  show "wrecv s = outs_hist s"
  proof (rule nth_equalityI)
    show "length (wrecv s) = length (outs_hist s)" using l by simp
    fix i assume "i < length (wrecv s)"
    then have i: "i < n" using l by simp
    from closed_workers [OF assms i] invD(5) [OF assms(1)] i
    show "wrecv s ! i = outs_hist s ! i" by (simp add: worker_inv_def)
  qed
  show "outs_hist s = cfwd s"
  proof (rule nth_equalityI)
    show "length (outs_hist s) = length (cfwd s)" using l by simp
    fix i assume "i < length (outs_hist s)"
    then have i: "i < n" using l by simp
    from closed_collectors [OF assms i] invD(6) [OF assms(1)] i
    show "outs_hist s ! i = cfwd s ! i" by (simp add: coll_inv_def)
  qed
  show "amounts s = map (\<lambda>xs. of_nat (length xs)) (cfwd s)"
  proof (rule nth_equalityI)
    show "length (amounts s) = length (map (\<lambda>xs. of_nat (length xs) :: int64) (cfwd s))"
      using l by simp
    fix i assume "i < length (amounts s)"
    then have i: "i < n" using l by simp
    from closed_collectors [OF assms i] invD(6) [OF assms(1)] i l
    show "amounts s ! i = map (\<lambda>xs. of_nat (length xs)) (cfwd s) ! i"
      by (simp add: coll_inv_def)
  qed
qed

lemma drained_facts:
  assumes "inv n s" "chOut_closed s" "chOut s = []" "m_pending (main_pc s) = []"
  shows "mset (agg s) = mset (sent s)" "hooked s = sent s"
    "inputSum s = sum_res s" "of_nat (length (hooked s)) = count_res s"
    "sum_list (amounts s) = of_nat (length (hooked s))"
proof -
  note h = closed_histories [OF assms(1,2)]
  from invD(10) [OF assms(1)] assms(3,4) h
  show m: "mset (agg s) = mset (sent s)" by (simp add: flow_inv_def)
  from closed_generator(1) [OF assms(1,2)] invD(3) [OF assms(1)]
  show k: "hooked s = sent s" by (simp add: gen_inv_def)
  have "sum_list (sent s) = sum_list (agg s)"
    using arg_cong [OF m, of sum_mset] by (simp add: sum_mset_sum_list)
  with invD(3,9) [OF assms(1)] k show "inputSum s = sum_res s"
    by (simp add: gen_inv_def main_inv_def)
  have len: "length (agg s) = length (sent s)"
    using arg_cong [OF m, of size] by simp
  with invD(9) [OF assms(1)] k show "of_nat (length (hooked s)) = count_res s"
    by (simp add: main_inv_def)
  have "mset (concat (cfwd s)) = mset (agg s)"
    using invD(10) [OF assms(1)] assms(3,4) by (simp add: flow_inv_def)
  then have "length (concat (cfwd s)) = length (agg s)"
    by (rule mset_eq_length)
  with len k have "of_nat (length (concat (cfwd s))) = (of_nat (length (hooked s)) :: int64)"
    by simp
  then show "sum_list (amounts s) = of_nat (length (hooked s))"
    unfolding h(3) sum_list_length_concat .
qed

lemma post_closed:
  assumes "inv n s" "m_post (main_pc s)"
  shows "chOut_closed s" "chOut s = []" "m_pending (main_pc s) = []"
proof -
  from invD(9) [OF assms(1)] assms(2) show "chOut_closed s" "chOut s = []"
    by (simp_all add: main_inv_def)
  from assms(2) show "m_pending (main_pc s) = []"
    by (cases "main_pc s") simp_all
qed

lemma not_post_worker:
  assumes "inv n s" "i < n" "wpc s ! i \<noteq> WDone"
  shows "\<not> m_post (main_pc s)"
  using closed_workers [OF assms(1) post_closed(1) [OF assms(1)] assms(2)] assms(3) by blast

lemma not_post_collector:
  assumes "inv n s" "i < n" "cpc s ! i \<noteq> CDone"
  shows "\<not> m_post (main_pc s)"
  using closed_collectors [OF assms(1) post_closed(1) [OF assms(1)] assms(2)] assms(3) by blast

lemma not_post_closer:
  assumes "inv n s" "closer_pc s \<noteq> KDone"
  shows "\<not> m_post (main_pc s)"
proof
  assume "m_post (main_pc s)"
  then have "chOut_closed s" by (rule post_closed(1) [OF assms(1)])
  with invD(8) [OF assms(1)] have "closer_pc s = KDone" unfolding closer_inv_def by blast
  with assms(2) show False by simp
qed

lemma post_count:
  assumes "inv n s" "main_pc s = MCheckCount"
  shows "inputCount s = count_res s"
proof -
  have p: "m_post (main_pc s)" using assms(2) by simp
  note c = post_closed [OF assms(1) p]
  have "gen_pc s \<noteq> GHookCount" by (rule closed_generator(2) [OF assms(1) c(1)])
  with invD(4) [OF assms(1)] assms(2) have "inputCount s = of_nat (length (hooked s))"
    by (simp add: count_inv_def)
  with drained_facts(4) [OF assms(1) c] show ?thesis by simp
qed

lemma post_split:
  assumes "inv n s" "main_pc s = MCheckPart"
  shows "inputCount s = 0"
proof -
  have p: "m_post (main_pc s)" using assms(2) by simp
  note c = post_closed [OF assms(1) p]
  have "gen_pc s \<noteq> GHookCount" by (rule closed_generator(2) [OF assms(1) c(1)])
  with invD(4) [OF assms(1)] assms(2)
  have "inputCount s = of_nat (length (hooked s)) - sum_list (amounts s)"
    by (simp add: count_inv_def)
  with drained_facts(5) [OF assms(1) c] show ?thesis by simp
qed

lemma wg_positive:
  assumes "inv n s" "i < n" "cpc s ! i = CDefer"
  shows "0 < wg s"
proof -
  have "c_active (cpc s ! i) \<le> sum_list (map c_active (cpc s))"
    using invD(1) [OF assms(1)] assms(2) by (intro sum_list_active_ge) (simp add: lens_def)
  with assms(3) have "1 \<le> sum_list (map c_active (cpc s))" by simp
  moreover have "0 \<le> m_adding (main_pc s)" by (cases "main_pc s") simp_all
  ultimately show ?thesis using invD(7) [OF assms(1)] by (simp add: wg_inv_def)
qed

subsection \<open>The transitions of a state that satisfies the invariant\<close>

text \<open>In such a state no transition panics and no check of \<open>main\<close> fails: the rule
  lists the transitions that remain.\<close>

lemma inv_step_cases [consumes 2, case_names timeout m_go_gen m_go_worker m_workers_end m_add m_add_end m_go_coll m_go_closer m_recv m_range_end m_acc m_print m_sum_ok m_count_ok m_part m_part_end m_split_ok m_return g_sel_done g_sel_next g_hook_sum g_hook_count g_close chin_pass w_recv_closed w_sleep w_close outs_pass c_recv_closed c_inc c_send c_done k_wait k_close]:
  assumes st: "step n a s = Some s'" and inv: "inv n s"
    and timeout: "exit_status s = None \<Longrightarrow> P (s\<lparr>ctx_done := True\<rparr>)"
    and m_go_gen: "exit_status s = None \<Longrightarrow> main_pc s = MGoGen \<Longrightarrow>
      P (s\<lparr>gen_pc := GSelect, main_pc := MWorkers 0\<rparr>)"
    and m_go_worker: "\<And>i. exit_status s = None \<Longrightarrow> main_pc s = MWorkers i \<Longrightarrow> i < n \<Longrightarrow>
      P (s\<lparr>wpc := (wpc s)[i := WRecv], main_pc := MWorkers (Suc i)\<rparr>)"
    and m_workers_end: "\<And>i. exit_status s = None \<Longrightarrow> main_pc s = MWorkers i \<Longrightarrow> \<not> i < n \<Longrightarrow>
      P (s\<lparr>main_pc := MAdd 0\<rparr>)"
    and m_add: "\<And>j. exit_status s = None \<Longrightarrow> main_pc s = MAdd j \<Longrightarrow> j < n \<Longrightarrow>
      P (s\<lparr>wg := wg s + 1, main_pc := MGoColl j\<rparr>)"
    and m_add_end: "\<And>j. exit_status s = None \<Longrightarrow> main_pc s = MAdd j \<Longrightarrow> \<not> j < n \<Longrightarrow>
      P (s\<lparr>main_pc := MGoCloser\<rparr>)"
    and m_go_coll: "\<And>j. exit_status s = None \<Longrightarrow> main_pc s = MGoColl j \<Longrightarrow>
      P (s\<lparr>cpc := (cpc s)[j := CRecv], main_pc := MAdd (Suc j)\<rparr>)"
    and m_go_closer: "exit_status s = None \<Longrightarrow> main_pc s = MGoCloser \<Longrightarrow>
      P (s\<lparr>closer_pc := KWait, main_pc := MRange\<rparr>)"
    and m_recv: "\<And>v rest. exit_status s = None \<Longrightarrow> main_pc s = MRange \<Longrightarrow> chOut s = v # rest \<Longrightarrow>
      P (s\<lparr>chOut := rest, main_pc := MAcc v\<rparr>)"
    and m_range_end: "exit_status s = None \<Longrightarrow> main_pc s = MRange \<Longrightarrow> chOut s = [] \<Longrightarrow> chOut_closed s \<Longrightarrow>
      P (s\<lparr>main_pc := MPrint\<rparr>)"
    and m_acc: "\<And>v. exit_status s = None \<Longrightarrow> main_pc s = MAcc v \<Longrightarrow>
      P (s\<lparr>count_res := count_res s + 1, sum_res := sum_res s + v, agg := agg s @ [v], main_pc := MRange\<rparr>)"
    and m_print: "exit_status s = None \<Longrightarrow> main_pc s = MPrint \<Longrightarrow>
      P (s\<lparr>printed := printed s @ [Counts (inputCount s) (count_res s), Sums (inputSum s) (sum_res s), Breakdown (amounts s)], main_pc := MCheckSum\<rparr>)"
    and m_sum_ok: "exit_status s = None \<Longrightarrow> main_pc s = MCheckSum \<Longrightarrow> inputSum s = sum_res s \<Longrightarrow>
      P (s\<lparr>main_pc := MCheckCount\<rparr>)"
    and m_count_ok: "exit_status s = None \<Longrightarrow> main_pc s = MCheckCount \<Longrightarrow> inputCount s = count_res s \<Longrightarrow>
      P (s\<lparr>main_pc := MPart 0\<rparr>)"
    and m_part: "\<And>k. exit_status s = None \<Longrightarrow> main_pc s = MPart k \<Longrightarrow> k < n \<Longrightarrow>
      P (s\<lparr>inputCount := inputCount s - amounts s ! k, main_pc := MPart (Suc k)\<rparr>)"
    and m_part_end: "\<And>k. exit_status s = None \<Longrightarrow> main_pc s = MPart k \<Longrightarrow> \<not> k < n \<Longrightarrow>
      P (s\<lparr>main_pc := MCheckPart\<rparr>)"
    and m_split_ok: "exit_status s = None \<Longrightarrow> main_pc s = MCheckPart \<Longrightarrow> inputCount s = 0 \<Longrightarrow>
      P (s\<lparr>main_pc := MReturn\<rparr>)"
    and m_return: "exit_status s = None \<Longrightarrow> main_pc s = MReturn \<Longrightarrow>
      P (s\<lparr>ctx_done := True, exit_status := Some 0\<rparr>)"
    and g_sel_done: "exit_status s = None \<Longrightarrow> gen_pc s = GSelect \<Longrightarrow> ctx_done s \<Longrightarrow>
      P (s\<lparr>gen_pc := GDefer\<rparr>)"
    and g_sel_next: "exit_status s = None \<Longrightarrow> gen_pc s = GSelect \<Longrightarrow> \<not> ctx_done s \<Longrightarrow>
      P (s\<lparr>gen_g := gen_g s + 1, gen_pc := GSend\<rparr>)"
    and g_hook_sum: "exit_status s = None \<Longrightarrow> gen_pc s = GHookSum \<Longrightarrow>
      P (s\<lparr>inputSum := inputSum s + gen_g s, hooked := hooked s @ [gen_g s], gen_pc := GHookCount\<rparr>)"
    and g_hook_count: "exit_status s = None \<Longrightarrow> gen_pc s = GHookCount \<Longrightarrow>
      P (s\<lparr>inputCount := inputCount s + 1, gen_pc := GSelect\<rparr>)"
    and g_close: "exit_status s = None \<Longrightarrow> gen_pc s = GDefer \<Longrightarrow> \<not> chIn_closed s \<Longrightarrow>
      P (s\<lparr>chIn_closed := True, chIn_closes := Suc (chIn_closes s), gen_pc := GDone\<rparr>)"
    and chin_pass: "\<And>i. exit_status s = None \<Longrightarrow> i < n \<Longrightarrow> gen_pc s = GSend \<Longrightarrow> wpc s ! i = WRecv \<Longrightarrow> \<not> chIn_closed s \<Longrightarrow> \<not> m_post (main_pc s) \<Longrightarrow>
      P (s\<lparr>gen_pc := GHookSum, wpc := (wpc s)[i := WSend (gen_g s)], sent := sent s @ [gen_g s], wrecv := (wrecv s)[i := wrecv s ! i @ [gen_g s]]\<rparr>)"
    and w_recv_closed: "\<And>i. exit_status s = None \<Longrightarrow> i < n \<Longrightarrow> wpc s ! i = WRecv \<Longrightarrow> chIn_closed s \<Longrightarrow> \<not> m_post (main_pc s) \<Longrightarrow>
      P (s\<lparr>wpc := (wpc s)[i := WDefer]\<rparr>)"
    and w_sleep: "\<And>i d. exit_status s = None \<Longrightarrow> i < n \<Longrightarrow> wpc s ! i = WSleep d \<Longrightarrow> \<not> m_post (main_pc s) \<Longrightarrow>
      P (s\<lparr>wpc := (wpc s)[i := WRecv]\<rparr>)"
    and w_close: "\<And>i. exit_status s = None \<Longrightarrow> i < n \<Longrightarrow> wpc s ! i = WDefer \<Longrightarrow> \<not> outs_closed s ! i \<Longrightarrow> \<not> m_post (main_pc s) \<Longrightarrow>
      P (s\<lparr>outs_closed := (outs_closed s)[i := True], outs_closes := (outs_closes s)[i := Suc (outs_closes s ! i)], wpc := (wpc s)[i := WDone]\<rparr>)"
    and outs_pass: "\<And>i v. exit_status s = None \<Longrightarrow> i < n \<Longrightarrow> cpc s ! i = CRecv \<Longrightarrow> \<not> outs_closed s ! i \<Longrightarrow> wpc s ! i = WSend v \<Longrightarrow> \<not> m_post (main_pc s) \<Longrightarrow>
      P (s\<lparr>wpc := (wpc s)[i := WSleep Millisecond], cpc := (cpc s)[i := CInc v], outs_hist := (outs_hist s)[i := outs_hist s ! i @ [v]]\<rparr>)"
    and c_recv_closed: "\<And>i. exit_status s = None \<Longrightarrow> i < n \<Longrightarrow> cpc s ! i = CRecv \<Longrightarrow> outs_closed s ! i \<Longrightarrow> \<not> m_post (main_pc s) \<Longrightarrow>
      P (s\<lparr>cpc := (cpc s)[i := CDefer]\<rparr>)"
    and c_inc: "\<And>i v. exit_status s = None \<Longrightarrow> i < n \<Longrightarrow> cpc s ! i = CInc v \<Longrightarrow> \<not> m_post (main_pc s) \<Longrightarrow>
      P (s\<lparr>amounts := (amounts s)[i := amounts s ! i + 1], cpc := (cpc s)[i := CSend v]\<rparr>)"
    and c_send: "\<And>i v. exit_status s = None \<Longrightarrow> i < n \<Longrightarrow> cpc s ! i = CSend v \<Longrightarrow> \<not> chOut_closed s \<Longrightarrow> length (chOut s) < n \<Longrightarrow> \<not> m_post (main_pc s) \<Longrightarrow>
      P (s\<lparr>chOut := chOut s @ [v], cfwd := (cfwd s)[i := cfwd s ! i @ [v]], cpc := (cpc s)[i := CRecv]\<rparr>)"
    and c_done: "\<And>i. exit_status s = None \<Longrightarrow> i < n \<Longrightarrow> cpc s ! i = CDefer \<Longrightarrow> \<not> wg s - 1 < 0 \<Longrightarrow> \<not> m_post (main_pc s) \<Longrightarrow>
      P (s\<lparr>wg := wg s - 1, cpc := (cpc s)[i := CDone]\<rparr>)"
    and k_wait: "exit_status s = None \<Longrightarrow> closer_pc s = KWait \<Longrightarrow> wg s = 0 \<Longrightarrow> \<not> m_post (main_pc s) \<Longrightarrow>
      P (s\<lparr>closer_pc := KClose\<rparr>)"
    and k_close: "exit_status s = None \<Longrightarrow> closer_pc s = KClose \<Longrightarrow> \<not> chOut_closed s \<Longrightarrow> \<not> m_post (main_pc s) \<Longrightarrow>
      P (s\<lparr>chOut_closed := True, chOut_closes := Suc (chOut_closes s), closer_pc := KDone\<rparr>)"
  shows "P s'"
  using st
proof (induct rule: step_cases)
  case Timeout
  then show ?case by (rule timeout)
next
    case Main
    from Main(2) show ?case
    proof (induct rule: main_step_cases)
      case m_go_gen
      with Main(1) show ?case by (intro assms(4)) simp_all
    next
      case (m_go_worker i)
      with Main(1) show ?case by (intro assms(5)) simp_all
    next
      case (m_workers_end i)
      with Main(1) show ?case by (intro assms(6)) simp_all
    next
      case (m_add j)
      with Main(1) show ?case by (intro assms(7)) simp_all
    next
      case (m_add_end j)
      with Main(1) show ?case by (intro assms(8)) simp_all
    next
      case (m_go_coll j)
      with Main(1) show ?case by (intro assms(9)) simp_all
    next
      case m_go_closer
      with Main(1) show ?case by (intro assms(10)) simp_all
    next
      case (m_recv v rest)
      with Main(1) show ?case by (intro assms(11)) simp_all
    next
      case m_range_end
      with Main(1) show ?case by (intro assms(12)) simp_all
    next
      case (m_acc v)
      with Main(1) show ?case by (intro assms(13)) simp_all
    next
      case m_print
      with Main(1) show ?case by (intro assms(14)) simp_all
    next
      case m_sum_bad
      show ?case using drained_facts(3) [OF inv post_closed [OF inv]] m_sum_bad by simp
    next
      case m_sum_ok
      with Main(1) show ?case by (intro assms(15)) simp_all
    next
      case m_count_bad
      show ?case using post_count [OF inv] m_count_bad by simp
    next
      case m_count_ok
      with Main(1) show ?case by (intro assms(16)) simp_all
    next
      case (m_part k)
      with Main(1) show ?case by (intro assms(17)) simp_all
    next
      case (m_part_end k)
      with Main(1) show ?case by (intro assms(18)) simp_all
    next
      case m_split_bad
      show ?case using post_split [OF inv] m_split_bad by simp
    next
      case m_split_ok
      with Main(1) show ?case by (intro assms(19)) simp_all
    next
      case m_return
      with Main(1) show ?case by (intro assms(20)) simp_all
    qed
next
    case Gen
    from Gen(2) show ?case
    proof (induct rule: Generator_step_cases)
      case g_sel_done
      with Gen(1) show ?case by (intro assms(21)) simp_all
    next
      case g_sel_next
      with Gen(1) show ?case by (intro assms(22)) simp_all
    next
      case g_send_closed
      show ?case using invD(3) [OF inv] g_send_closed by (simp add: gen_inv_def)
    next
      case g_hook_sum
      with Gen(1) show ?case by (intro assms(23)) simp_all
    next
      case g_hook_count
      with Gen(1) show ?case by (intro assms(24)) simp_all
    next
      case g_close_twice
      show ?case using invD(3) [OF inv] g_close_twice by (simp add: gen_inv_def)
    next
      case g_close
      with Gen(1) show ?case by (intro assms(25)) simp_all
    qed
next
    case (ChIn i)
    from ChIn(2) show ?case
    proof (induct rule: chIn_step_cases)
      case chin_pass
      with ChIn(1) not_post_worker [OF inv] show ?case by (intro assms(26)) simp_all
    qed
next
    case (Work i)
    from Work(2) show ?case
    proof (induct rule: Worker_step_cases)
      case w_recv_closed
      with Work(1) not_post_worker [OF inv] show ?case by (intro assms(27)) simp_all
    next
      case (w_send_closed v)
      show ?case using invD(5) [OF inv] w_send_closed by (simp add: worker_inv_def)
    next
      case (w_sleep d)
      with Work(1) not_post_worker [OF inv] show ?case by (intro assms(28)) simp_all
    next
      case w_close_twice
      show ?case using invD(5) [OF inv] w_close_twice by (simp add: worker_inv_def)
    next
      case w_close
      with Work(1) not_post_worker [OF inv] show ?case by (intro assms(29)) simp_all
    qed
next
    case (Outs i)
    from Outs(2) show ?case
    proof (induct rule: outs_step_cases)
      case (outs_pass v)
      with Outs(1) not_post_collector [OF inv] show ?case by (intro assms(30)) simp_all
    qed
next
    case (Coll i)
    from Coll(2) show ?case
    proof (induct rule: collector_step_cases)
      case c_recv_closed
      with Coll(1) not_post_collector [OF inv] show ?case by (intro assms(31)) simp_all
    next
      case (c_inc v)
      with Coll(1) not_post_collector [OF inv] show ?case by (intro assms(32)) simp_all
    next
      case (c_send_closed v)
      show ?case using closed_collectors [OF inv c_send_closed(3,1)] c_send_closed(2) by simp
    next
      case (c_send v)
      with Coll(1) not_post_collector [OF inv] show ?case by (intro assms(33)) simp_all
    next
      case c_done_neg
      show ?case using wg_positive [OF inv c_done_neg(1,2)] c_done_neg(3) by simp
    next
      case c_done
      with Coll(1) not_post_collector [OF inv] show ?case by (intro assms(34)) simp_all
    qed
next
    case Closer
    from Closer(2) show ?case
    proof (induct rule: closer_step_cases)
      case k_wait
      with Closer(1) not_post_closer [OF inv] show ?case by (intro assms(35)) simp_all
    next
      case k_close_twice
      show ?case using invD(8) [OF inv] k_close_twice by (simp add: closer_inv_def)
    next
      case k_close
      with Closer(1) not_post_closer [OF inv] show ?case by (intro assms(36)) simp_all
    qed
qed

section \<open>Every step keeps the invariant\<close>

lemma part_done_not_post: "\<not> m_post pc \<Longrightarrow> part_done pc xs = []"
  by (cases pc) simp_all

lemma printed_post: "m_printed pc \<Longrightarrow> m_post pc"
  by (cases pc) simp_all

lemma int_active_update:
  "i < length xs \<Longrightarrow> int (sum_list (map c_active (xs[i := y])))
     = int (sum_list (map c_active xs)) - int (c_active (xs ! i)) + int (c_active y)"
  using sum_list_map_update [of i xs c_active y] by simp

lemma all_done_when_wg_zero:
  assumes "inv n s" "closer_pc s = KWait" "wg s = 0" "i < n"
  shows "cpc s ! i = CDone"
proof -
  note l = invD(1) [OF assms(1), unfolded lens_def]
  note sp = invD(2) [OF assms(1), unfolded spawn_inv_def]
  have ns: "\<not> m_setup (main_pc s)" using sp assms(2) by simp
  then have "m_adding (main_pc s) = 0" by (cases "main_pc s") simp_all
  with invD(7) [OF assms(1)] assms(3) have "sum_list (map c_active (cpc s)) = 0"
    by (simp add: wg_inv_def)
  then have "c_active (cpc s ! i) = 0" using l assms(4) by simp
  moreover have "c_spawned (main_pc s) i" using ns by (cases "main_pc s") simp_all
  then have "cpc s ! i \<noteq> CIdle" using sp assms(4) by simp
  ultimately show ?thesis by (cases "cpc s ! i") simp_all
qed

lemma post_print:
  assumes "inv n s" "main_pc s = MPrint"
  shows "inputCount s = count_res s" "inputSum s = sum_res s"
proof -
  have p: "m_post (main_pc s)" using assms(2) by simp
  note c = post_closed [OF assms(1) p]
  have "gen_pc s \<noteq> GHookCount" by (rule closed_generator(2) [OF assms(1) c(1)])
  with invD(4) [OF assms(1)] assms(2) have "inputCount s = of_nat (length (hooked s))"
    by (simp add: count_inv_def)
  with drained_facts(4) [OF assms(1) c] show "inputCount s = count_res s" by simp
  show "inputSum s = sum_res s" by (rule drained_facts(3) [OF assms(1) c])
qed

lemma lens_step:
  assumes st: "step n a s = Some s'" and inv: "inv n s"
  shows "lens n s'"
  using st inv
proof (induct rule: inv_step_cases)
qed (use invD(1) [OF inv] in \<open>simp_all add: lens_def\<close>)

lemma spawn_step:
  assumes st: "step n a s = Some s'" and inv: "inv n s"
  shows "spawn_inv n s'"
  using st inv
proof (induct rule: inv_step_cases)
qed (use invD(1,2) [OF inv] in \<open>auto simp: lens_def spawn_inv_def nth_list_update less_Suc_eq\<close>)

lemma gen_step:
  assumes st: "step n a s = Some s'" and inv: "inv n s"
  shows "gen_inv n s'"
  using st inv
proof (induct rule: inv_step_cases)
qed (use invD(2,3) [OF inv] in \<open>auto simp: gen_inv_def spawn_inv_def counting_snoc\<close>)

lemma count_step:
  assumes st: "step n a s = Some s'" and inv: "inv n s"
  shows "count_inv s'"
  using st inv
proof (induct rule: inv_step_cases)
qed (use invD(1,2,4) [OF inv] in \<open>auto simp: count_inv_def lens_def spawn_inv_def
       part_done_not_post take_Suc_conv_app_nth\<close>)

lemma worker_step:
  assumes st: "step n a s = Some s'" and inv: "inv n s"
  shows "worker_inv n s'"
  using st inv
proof (induct rule: inv_step_cases)
qed (use invD(1,2,3,5) [OF inv] in \<open>auto simp: worker_inv_def lens_def spawn_inv_def
       gen_inv_def nth_list_update\<close>)

lemma coll_step:
  assumes st: "step n a s = Some s'" and inv: "inv n s"
  shows "coll_inv n s'"
  using st inv
proof (induct rule: inv_step_cases)
qed (use invD(1,2,5,6) [OF inv] in \<open>auto simp: coll_inv_def worker_inv_def lens_def
       spawn_inv_def nth_list_update\<close>)

lemma wg_step:
  assumes st: "step n a s = Some s'" and inv: "inv n s"
  shows "wg_inv s'"
  using st inv
proof (induct rule: inv_step_cases)
qed (use invD(1,2,7) [OF inv] in \<open>auto simp: wg_inv_def lens_def spawn_inv_def
       int_active_update\<close>)

lemma closer_step:
  assumes st: "step n a s = Some s'" and inv: "inv n s"
  shows "closer_inv n s'"
  using st inv
proof (induct rule: inv_step_cases)
  case k_wait
  then show ?case
    using invD(8) [OF inv] all_done_when_wg_zero [OF inv] by (simp add: closer_inv_def)
qed (use invD(1,2,8) [OF inv] in \<open>auto simp: closer_inv_def lens_def spawn_inv_def
       nth_list_update\<close>)

lemma main_inv_step:
  assumes st: "step n a s = Some s'" and inv: "inv n s"
  shows "main_inv s'"
  using st inv
proof (induct rule: inv_step_cases)
qed (use invD(9) [OF inv] in \<open>auto simp: main_inv_def\<close>)

lemma flow_step:
  assumes st: "step n a s = Some s'" and inv: "inv n s"
  shows "flow_inv s'"
  using st inv
proof (induct rule: inv_step_cases)
qed (use invD(1,10) [OF inv] in \<open>auto simp: flow_inv_def lens_def mset_concat_snoc_at\<close>)

lemma exit_step:
  assumes st: "step n a s = Some s'" and inv: "inv n s"
  shows "exit_inv s'"
  using st inv
proof (induct rule: inv_step_cases)
  case m_print
  then show ?case
    using invD(11) [OF inv] post_print [OF inv] by (simp add: exit_inv_def)
qed (use invD(11) [OF inv] printed_post in \<open>auto simp: exit_inv_def\<close>)

lemma inv_init: "inv n (init n)"
  by (simp add: inv_def init_def lens_def spawn_inv_def gen_inv_def counting_Nil count_inv_def
      worker_inv_def coll_inv_def wg_inv_def closer_inv_def main_inv_def flow_inv_def
      exit_inv_def)

lemma inv_step:
  assumes "step n a s = Some s'" "inv n s"
  shows "inv n s'"
  unfolding inv_def
  by (intro conjI lens_step [OF assms] spawn_step [OF assms] gen_step [OF assms]
      count_step [OF assms] worker_step [OF assms] coll_step [OF assms] wg_step [OF assms]
      closer_step [OF assms] main_inv_step [OF assms] flow_step [OF assms]
      exit_step [OF assms])

lemma inv_run: "run n s sched = Some s' \<Longrightarrow> inv n s \<Longrightarrow> inv n s'"
proof (induction sched arbitrary: s)
  case Nil
  then show ?case by simp
next
  case (Cons a sched)
  from Cons.prems(1) obtain s1 where a: "step n a s = Some s1" and r: "run n s1 sched = Some s'"
    by (cases "step n a s") simp_all
  from Cons.IH [OF r inv_step [OF a Cons.prems(2)]] show ?case .
qed

lemma reachable_inv: "run n (init n) sched = Some s \<Longrightarrow> inv n s"
  by (rule inv_run [OF _ inv_init])


lemma step_cases_act [consumes 1, case_names Timeout Main Gen ChIn Work Outs Coll Closer]:
  assumes "step n a s = Some s'"
    and "a = Timeout \<Longrightarrow> exit_status s = None \<Longrightarrow> P (s\<lparr>ctx_done := True\<rparr>)"
    and "a = Main \<Longrightarrow> main_step n s = Some s' \<Longrightarrow> P s'"
    and "a = Gen \<Longrightarrow> Generator_step s = Some s' \<Longrightarrow> P s'"
    and "\<And>i. a = ChIn i \<Longrightarrow> chIn_step n i s = Some s' \<Longrightarrow> P s'"
    and "\<And>i. a = Work i \<Longrightarrow> Worker_step n i s = Some s' \<Longrightarrow> P s'"
    and "\<And>i. a = Outs i \<Longrightarrow> outs_step n i s = Some s' \<Longrightarrow> P s'"
    and "\<And>i. a = Coll i \<Longrightarrow> collector_step n i s = Some s' \<Longrightarrow> P s'"
    and "a = Closer \<Longrightarrow> closer_step s = Some s' \<Longrightarrow> P s'"
  shows "P s'"
  using assms by (cases a) (auto simp: step_def split: if_splits)

lemma sint_of_nat_int64: "k < 2 ^ 63 \<Longrightarrow> sint (of_nat k :: int64) = int k"
  by (simp add: signed_of_nat signed_take_bit_int_eq_self)

lemma counting_sint:
  assumes "counting xs" "length xs < 2 ^ 63"
  shows "map sint xs = map int [1..<Suc (length xs)]"
proof -
  have "sint (of_nat k :: int64) = int k" if "k \<in> set [1..<Suc (length xs)]" for k
  proof -
    from that have "k \<le> length xs" by auto
    from this assms(2) have "k < 2 ^ 63" by (rule le_less_trans)
    then show ?thesis by (rule sint_of_nat_int64)
  qed
  then have "map sint (map of_nat [1..<Suc (length xs)] :: int64 list)
      = map int [1..<Suc (length xs)]"
    unfolding map_map by (intro map_cong refl) simp
  with assms(1) show ?thesis unfolding counting_def by simp
qed

lemma sorted_int_upt: "sorted_wrt (<) (map int [m..<k])"
  by (simp add: sorted_wrt_map)

lemma sent_counting:
  assumes "inv n s"
  shows "counting (sent s)"
proof (cases "gen_pc s = GHookSum")
  case True
  with invD(3) [OF assms] counting_snoc [of "hooked s"] show ?thesis by (simp add: gen_inv_def)
next
  case False
  with invD(3) [OF assms] show ?thesis by (simp add: gen_inv_def)
qed

lemma others_keep_chIn:
  assumes "step n a s = Some s'" "a \<noteq> Gen"
  shows "chIn_closed s' = chIn_closed s \<and> chIn_closes s' = chIn_closes s"
  using assms(1)
proof (induct rule: step_cases_act)
  case Main
  from Main(2) show ?case by (induct rule: main_step_cases) (simp_all add: fatal_def)
next
  case Gen
  with assms(2) show ?case by simp
next
  case (ChIn i)
  from ChIn(2) show ?case by (induct rule: chIn_step_cases) simp
next
  case (Work i)
  from Work(2) show ?case by (induct rule: Worker_step_cases) (simp_all add: panic_def)
next
  case (Outs i)
  from Outs(2) show ?case by (induct rule: outs_step_cases) simp
next
  case (Coll i)
  from Coll(2) show ?case by (induct rule: collector_step_cases) (simp_all add: panic_def)
next
  case Closer
  from Closer(2) show ?case by (induct rule: closer_step_cases) (simp_all add: panic_def)
qed simp

lemma no_failure:
  assumes "inv n s"
  shows "exit_status s = None \<or> exit_status s = Some 0"
  using invD(11) [OF assms] unfolding exit_inv_def by blast


lemma cancelled_step:
  assumes "step n a s = Some s'" "ctx_done s"
  shows "ctx_done s'
    \<and> length (sent s') + (if gen_pc s' = GSend then 1 else 0)
        \<le> length (sent s) + (if gen_pc s = GSend then 1 else 0)
    \<and> (g_resting (gen_pc s) \<longrightarrow>
          g_resting (gen_pc s') \<and> sent s' = sent s \<and> hooked s' = hooked s)"
  using assms(1)
proof (induct rule: step_cases)
  case Main
  from Main(2) show ?case
    by (induct rule: main_step_cases) (use assms(2) in \<open>simp_all add: fatal_def\<close>)
next
  case Gen
  from Gen(2) show ?case
    by (induct rule: Generator_step_cases) (use assms(2) in \<open>simp_all add: panic_def\<close>)
next
  case (ChIn i)
  from ChIn(2) show ?case by (induct rule: chIn_step_cases) (use assms(2) in simp)
next
  case (Work i)
  from Work(2) show ?case
    by (induct rule: Worker_step_cases) (use assms(2) in \<open>simp_all add: panic_def\<close>)
next
  case (Outs i)
  from Outs(2) show ?case by (induct rule: outs_step_cases) (use assms(2) in simp)
next
  case (Coll i)
  from Coll(2) show ?case
    by (induct rule: collector_step_cases) (use assms(2) in \<open>simp_all add: panic_def\<close>)
next
  case Closer
  from Closer(2) show ?case
    by (induct rule: closer_step_cases) (use assms(2) in \<open>simp_all add: panic_def\<close>)
qed (use assms(2) in simp)

lemma cancelled_run:
  "run n s0 sched = Some s \<Longrightarrow> ctx_done s0 \<Longrightarrow>
     length (sent s) + (if gen_pc s = GSend then 1 else 0)
        \<le> length (sent s0) + (if gen_pc s0 = GSend then 1 else 0)
    \<and> (g_resting (gen_pc s0) \<longrightarrow> sent s = sent s0 \<and> hooked s = hooked s0)"
proof (induction sched arbitrary: s0)
  case Nil
  then show ?case by simp
next
  case (Cons a sched)
  from Cons.prems(1) obtain s1 where a: "step n a s0 = Some s1"
    and r: "run n s1 sched = Some s"
    by (cases "step n a s0") simp_all
  note c = cancelled_step [OF a Cons.prems(2)]
  from c have d: "ctx_done s1" by blast
  note i = Cons.IH [OF r d]
  have "length (sent s) + (if gen_pc s = GSend then 1 else 0)
      \<le> length (sent s0) + (if gen_pc s0 = GSend then 1 else 0)"
    using c i by (meson le_trans)
  moreover have "sent s = sent s0 \<and> hooked s = hooked s0" if "g_resting (gen_pc s0)"
    using c i that by simp
  ultimately show ?case by blast
qed

lemma subseq_step:
  assumes st: "step n a s = Some s'" and inv: "inv n s"
    and sub: "\<forall>i<n. subseq (wrecv s ! i) (sent s)"
  shows "\<forall>i<n. subseq (wrecv s' ! i) (sent s')"
  using st inv
proof (induct rule: inv_step_cases)
  case (chin_pass i)
  show ?case
  proof (intro allI impI)
    fix j assume j: "j < n"
    show "subseq (wrecv (s\<lparr>gen_pc := GHookSum, wpc := (wpc s)[i := WSend (gen_g s)],
        sent := sent s @ [gen_g s], wrecv := (wrecv s)[i := wrecv s ! i @ [gen_g s]]\<rparr>) ! j)
      (sent (s\<lparr>gen_pc := GHookSum, wpc := (wpc s)[i := WSend (gen_g s)],
        sent := sent s @ [gen_g s], wrecv := (wrecv s)[i := wrecv s ! i @ [gen_g s]]\<rparr>))"
    proof (cases "j = i")
      case True
      with sub j invD(1) [OF inv] show ?thesis by (simp add: lens_def)
    next
      case False
      with sub j invD(1) [OF inv] show ?thesis by (simp add: lens_def subseq_rev_drop_many)
    qed
  qed
qed (use sub in simp_all)

lemma subseq_run:
  "run n s0 sched = Some s \<Longrightarrow> inv n s0 \<Longrightarrow> \<forall>i<n. subseq (wrecv s0 ! i) (sent s0) \<Longrightarrow>
     \<forall>i<n. subseq (wrecv s ! i) (sent s)"
proof (induction sched arbitrary: s0)
  case Nil
  then show ?case by simp
next
  case (Cons a sched)
  from Cons.prems(1) obtain s1 where a: "step n a s0 = Some s1"
    and r: "run n s1 sched = Some s"
    by (cases "step n a s0") simp_all
  from Cons.IH [OF r inv_step [OF a Cons.prems(2)] subseq_step [OF a Cons.prems(2,3)]]
  show ?case .
qed

lemma others_keep_amount:
  assumes "step n a s = Some s'" "a \<noteq> Coll i"
  shows "amounts s' ! i = amounts s ! i"
  using assms(1)
proof (induct rule: step_cases_act)
  case Main
  from Main(2) show ?case by (induct rule: main_step_cases) (simp_all add: fatal_def)
next
  case Gen
  from Gen(2) show ?case by (induct rule: Generator_step_cases) (simp_all add: panic_def)
next
  case (ChIn j)
  from ChIn(2) show ?case by (induct rule: chIn_step_cases) simp
next
  case (Work j)
  from Work(2) show ?case by (induct rule: Worker_step_cases) (simp_all add: panic_def)
next
  case (Outs j)
  from Outs(2) show ?case by (induct rule: outs_step_cases) simp
next
  case (Coll j)
  with assms(2) have "j \<noteq> i" by simp
  with Coll(2) show ?case by (induct rule: collector_step_cases) (simp_all add: panic_def)
next
  case Closer
  from Closer(2) show ?case by (induct rule: closer_step_cases) (simp_all add: panic_def)
qed simp

lemma others_keep_chOut:
  assumes "step n a s = Some s'" "a \<noteq> Closer"
  shows "chOut_closed s' = chOut_closed s \<and> chOut_closes s' = chOut_closes s"
  using assms(1)
proof (induct rule: step_cases_act)
  case Main
  from Main(2) show ?case by (induct rule: main_step_cases) (simp_all add: fatal_def)
next
  case Gen
  from Gen(2) show ?case by (induct rule: Generator_step_cases) (simp_all add: panic_def)
next
  case (ChIn j)
  from ChIn(2) show ?case by (induct rule: chIn_step_cases) simp
next
  case (Work j)
  from Work(2) show ?case by (induct rule: Worker_step_cases) (simp_all add: panic_def)
next
  case (Outs j)
  from Outs(2) show ?case by (induct rule: outs_step_cases) simp
next
  case (Coll j)
  from Coll(2) show ?case by (induct rule: collector_step_cases) (simp_all add: panic_def)
next
  case Closer
  with assms(2) show ?case by simp
qed simp

lemma sint_counted: "sint (c_counted pc) = (case pc of CSend v \<Rightarrow> 1 | _ \<Rightarrow> 0)"
  by (cases pc) simp_all

lemma amount_sint:
  assumes a: "amounts s ! i = of_nat (length (cfwd s ! i)) + c_counted (cpc s ! i)"
    and h: "outs_hist s ! i = cfwd s ! i @ c_pending (cpc s ! i)"
    and b: "length (outs_hist s ! i) < 2 ^ 63"
  shows "sint (amounts s ! i) = int (length (cfwd s ! i)) + sint (c_counted (cpc s ! i))"
proof (cases "\<exists>v. cpc s ! i = CSend v")
  case True
  then obtain v where v: "cpc s ! i = CSend v" by blast
  with h have "length (outs_hist s ! i) = Suc (length (cfwd s ! i))" by simp
  with b have "Suc (length (cfwd s ! i)) < 2 ^ 63" by simp
  from sint_of_nat_int64 [OF this] a v show ?thesis by (simp add: add.commute)
next
  case False
  then have c: "c_counted (cpc s ! i) = 0" by (cases "cpc s ! i") simp_all
  from h have "length (cfwd s ! i) \<le> length (outs_hist s ! i)" by simp
  from this b have "length (cfwd s ! i) < 2 ^ 63" by (rule le_less_trans)
  from sint_of_nat_int64 [OF this] a c show ?thesis by simp
qed

lemma run_append:
  "run n s (xs @ ys) = (case run n s xs of None \<Rightarrow> None | Some s' \<Rightarrow> run n s' ys)"
  by (induction xs arbitrary: s) (simp_all split: option.splits)

lemma part_loop:
  "exit_status s = None \<Longrightarrow> main_pc s = MPart k \<Longrightarrow> k + j = n \<Longrightarrow> length (amounts s) = n \<Longrightarrow>
     run n s (replicate j Main)
       = Some (s\<lparr>inputCount := inputCount s - sum_list (drop k (amounts s)), main_pc := MPart n\<rparr>)"
proof (induction j arbitrary: s k)
  case 0
  then show ?case by simp
next
  case (Suc j)
  let ?s1 = "s\<lparr>inputCount := inputCount s - amounts s ! k, main_pc := MPart (Suc k)\<rparr>"
  from Suc.prems have k: "k < n" by simp
  with Suc.prems have st: "step n Main s = Some ?s1" by (simp add: step_def main_step_def)
  have "run n ?s1 (replicate j Main)
    = Some (?s1\<lparr>inputCount := inputCount ?s1 - sum_list (drop (Suc k) (amounts ?s1)),
         main_pc := MPart n\<rparr>)"
    using Suc.prems by (intro Suc.IH) simp_all
  moreover have "drop k (amounts s) = amounts s ! k # drop (Suc k) (amounts s)"
    using k Suc.prems(4) by (simp add: Cons_nth_drop_Suc)
  ultimately show ?case using st by (simp add: diff_diff_eq)
qed

lemma replicate_snoc: "replicate k x @ (x # xs) = x # replicate k x @ xs"
  by (induction k) simp_all

lemma replicate_main_tail:
  "replicate (n + 6) Main = [Main, Main, Main] @ replicate n Main @ [Main, Main, Main]"
  "replicate (n + 5) Main = [Main, Main, Main] @ replicate n Main @ [Main, Main]"
  "replicate 2 Main = [Main, Main]" "replicate 3 Main = [Main, Main, Main]"
  by (simp_all add: replicate_add replicate_snoc eval_nat_numeral)

lemma main_tail:
  assumes "main_pc s = MPrint" "exit_status s = None" "length (amounts s) = n"
  shows "inputSum s \<noteq> sum_res s \<Longrightarrow>
      run n s (replicate 2 Main) = Some (fatal (FatalSums (inputSum s) (sum_res s))
        (s\<lparr>printed := printed s @ [Counts (inputCount s) (count_res s),
              Sums (inputSum s) (sum_res s), Breakdown (amounts s)],
           main_pc := MCheckSum\<rparr>))"
    and "inputSum s = sum_res s \<Longrightarrow> inputCount s \<noteq> count_res s \<Longrightarrow>
      run n s (replicate 3 Main) = Some (fatal (FatalCounts (inputCount s) (count_res s))
        (s\<lparr>printed := printed s @ [Counts (inputCount s) (count_res s),
              Sums (inputSum s) (sum_res s), Breakdown (amounts s)],
           main_pc := MCheckCount\<rparr>))"
    and "inputSum s = sum_res s \<Longrightarrow> inputCount s = count_res s \<Longrightarrow>
      inputCount s - sum_list (amounts s) \<noteq> 0 \<Longrightarrow>
      run n s (replicate (n + 5) Main) = Some (fatal FatalSplit
        (s\<lparr>printed := printed s @ [Counts (inputCount s) (count_res s),
              Sums (inputSum s) (sum_res s), Breakdown (amounts s)],
           inputCount := inputCount s - sum_list (amounts s), main_pc := MCheckPart\<rparr>))"
    and "inputSum s = sum_res s \<Longrightarrow> inputCount s = count_res s \<Longrightarrow>
      inputCount s - sum_list (amounts s) = 0 \<Longrightarrow>
      run n s (replicate (n + 6) Main) = Some
        (s\<lparr>printed := printed s @ [Counts (inputCount s) (count_res s),
              Sums (inputSum s) (sum_res s), Breakdown (amounts s)],
           inputCount := inputCount s - sum_list (amounts s), main_pc := MReturn,
           ctx_done := True, exit_status := Some 0\<rparr>)"
proof -
  let ?r = "[Counts (inputCount s) (count_res s), Sums (inputSum s) (sum_res s),
    Breakdown (amounts s)]"
  let ?p = "s\<lparr>printed := printed s @ ?r, main_pc := MPart 0\<rparr>"
  have loop: "run n ?p (replicate n Main)
    = Some (?p\<lparr>inputCount := inputCount ?p - sum_list (drop 0 (amounts ?p)),
         main_pc := MPart n\<rparr>)"
    using assms by (intro part_loop) simp_all
  show "inputSum s \<noteq> sum_res s \<Longrightarrow>
      run n s (replicate 2 Main) = Some (fatal (FatalSums (inputSum s) (sum_res s))
        (s\<lparr>printed := printed s @ ?r, main_pc := MCheckSum\<rparr>))"
    using assms unfolding replicate_main_tail by (simp add: step_def main_step_def)
  show "inputSum s = sum_res s \<Longrightarrow> inputCount s \<noteq> count_res s \<Longrightarrow>
      run n s (replicate 3 Main) = Some (fatal (FatalCounts (inputCount s) (count_res s))
        (s\<lparr>printed := printed s @ ?r, main_pc := MCheckCount\<rparr>))"
    using assms unfolding replicate_main_tail by (simp add: step_def main_step_def)
  have pre: "run n s [Main, Main, Main] = Some ?p"
    if "inputSum s = sum_res s" "inputCount s = count_res s"
    using assms that by (simp add: step_def main_step_def)
  show "inputSum s = sum_res s \<Longrightarrow> inputCount s = count_res s \<Longrightarrow>
      inputCount s - sum_list (amounts s) \<noteq> 0 \<Longrightarrow>
      run n s (replicate (n + 5) Main) = Some (fatal FatalSplit
        (s\<lparr>printed := printed s @ ?r,
           inputCount := inputCount s - sum_list (amounts s), main_pc := MCheckPart\<rparr>))"
    using assms pre loop unfolding replicate_main_tail
    by (simp add: run_append step_def main_step_def fatal_def)
  show "inputSum s = sum_res s \<Longrightarrow> inputCount s = count_res s \<Longrightarrow>
      inputCount s - sum_list (amounts s) = 0 \<Longrightarrow>
      run n s (replicate (n + 6) Main) = Some
        (s\<lparr>printed := printed s @ ?r,
           inputCount := inputCount s - sum_list (amounts s), main_pc := MReturn,
           ctx_done := True, exit_status := Some 0\<rparr>)"
    using assms pre loop unfolding replicate_main_tail
    by (simp add: run_append step_def main_step_def)
qed

lemma active_count:
  "\<forall>p\<in>set ps. p \<noteq> CIdle \<Longrightarrow>
     sum_list (map c_active ps) = length (filter (\<lambda>p. p \<noteq> CDone) ps)"
proof (induction ps)
  case Nil
  then show ?case by simp
next
  case (Cons p ps)
  then show ?case by (cases p) simp_all
qed

lemma wg_counts:
  assumes "inv n s" "closer_pc s \<noteq> KIdle"
  shows "wg s = int (length (filter (\<lambda>p. p \<noteq> CDone) (cpc s)))"
proof -
  note l = invD(1) [OF assms(1), unfolded lens_def]
  note sp = invD(2) [OF assms(1), unfolded spawn_inv_def]
  have ns: "\<not> m_setup (main_pc s)" using sp assms(2) by simp
  then have a: "m_adding (main_pc s) = 0" by (cases "main_pc s") simp_all
  have "p \<noteq> CIdle" if "p \<in> set (cpc s)" for p
  proof -
    from that obtain i where i: "i < length (cpc s)" "p = cpc s ! i"
      by (auto simp: in_set_conv_nth)
    have "c_spawned (main_pc s) i" using ns by (cases "main_pc s") simp_all
    with sp i l show ?thesis by simp
  qed
  then have "sum_list (map c_active (cpc s)) = length (filter (\<lambda>p. p \<noteq> CDone) (cpc s))"
    by (intro active_count) blast
  with invD(7) [OF assms(1)] a show ?thesis by (simp add: wg_inv_def)
qed


subsection \<open>The report and the checks\<close>

lemma diag_step:
  assumes "step n a s = Some s'"
  shows "filter is_diagnostic (printed s') = filter is_diagnostic (printed s)
    \<or> exit_status s' = Some 1
      \<and> length (filter is_diagnostic (printed s')) = Suc (length (filter is_diagnostic (printed s)))"
  using assms
proof (induct rule: step_cases_act)
  case Main
  from Main(2) show ?case
    by (induct rule: main_step_cases) (simp_all add: fatal_def)
next
  case Gen
  from Gen(2) show ?case by (induct rule: Generator_step_cases) (simp_all add: panic_def)
next
  case (ChIn i)
  from ChIn(2) show ?case by (induct rule: chIn_step_cases) simp
next
  case (Work i)
  from Work(2) show ?case by (induct rule: Worker_step_cases) (simp_all add: panic_def)
next
  case (Outs i)
  from Outs(2) show ?case by (induct rule: outs_step_cases) simp
next
  case (Coll i)
  from Coll(2) show ?case by (induct rule: collector_step_cases) (simp_all add: panic_def)
next
  case Closer
  from Closer(2) show ?case by (induct rule: closer_step_cases) (simp_all add: panic_def)
qed simp

lemma diag_run:
  "run n s sched = Some s' \<Longrightarrow>
     filter is_diagnostic (printed s') = filter is_diagnostic (printed s)
     \<or> exit_status s' = Some 1
       \<and> length (filter is_diagnostic (printed s')) = Suc (length (filter is_diagnostic (printed s)))"
proof (induction sched arbitrary: s)
  case Nil
  then show ?case by simp
next
  case (Cons a as)
  from Cons.prems obtain s1 where st: "step n a s = Some s1" and r: "run n s1 as = Some s'"
    by (auto split: option.splits)
  from diag_step [OF st] show ?case
  proof
    assume "filter is_diagnostic (printed s1) = filter is_diagnostic (printed s)"
    with Cons.IH [OF r] show ?thesis by simp
  next
    assume e: "exit_status s1 = Some 1
      \<and> length (filter is_diagnostic (printed s1)) = Suc (length (filter is_diagnostic (printed s)))"
    have "as = []"
    proof (cases as)
      case (Cons b bs)
      with e have "run n s1 as = None" by (simp add: step_def)
      with r show ?thesis by simp
    qed simp
    with r e show ?thesis by simp
  qed
qed


section \<open>The claims\<close>

text \<open>C1. Conservation. When \<open>main\<close> has drained \<open>chOut\<close> (it stands at the report or
  at one of the first two checks, before the loop that overwrites \<open>inputCount\<close>), the
  per-collector counters add up to \<open>inputCount\<close>, \<open>inputCount\<close> equals \<open>count\<close>,
  \<open>inputSum\<close> equals \<open>sum\<close>, and the values \<open>main\<close> has read are, as a multiset, the
  values the Generator has sent: none lost, none duplicated. The sums are sums of 64-bit
  integers, as in the program.\<close>

theorem conservation:
  assumes "run n (init n) sched = Some s"
    and "main_pc s = MPrint \<or> main_pc s = MCheckSum \<or> main_pc s = MCheckCount"
  shows "sum_list (amounts s) = inputCount s \<and> inputCount s = count_res s
    \<and> inputSum s = sum_res s \<and> mset (agg s) = mset (sent s)"
proof -
  note inv = reachable_inv [OF assms(1)]
  have p: "m_post (main_pc s)" and d: "part_done (main_pc s) (amounts s) = []"
    using assms(2) by auto
  note c = post_closed [OF inv p]
  note f = drained_facts [OF inv c]
  have "gen_pc s \<noteq> GHookCount" by (rule closed_generator(2) [OF inv c(1)])
  with invD(4) [OF inv] d have "inputCount s = of_nat (length (hooked s))"
    by (simp add: count_inv_def)
  with f show ?thesis by simp
qed

theorem conservation_witness:
  "\<exists>s. run NumOut (init NumOut) (one_value_run NumOut) = Some s \<and> main_pc s = MPrint
     \<and> sent s = [1] \<and> sum_list (amounts s) = inputCount s \<and> inputCount s = count_res s
     \<and> inputSum s = sum_res s \<and> mset (agg s) = mset (sent s)"
proof -
  have "case run NumOut (init NumOut) (one_value_run NumOut) of None \<Rightarrow> False
    | Some s \<Rightarrow> main_pc s = MPrint \<and> sent s = [1]"
    by code_simp
  then obtain s where r: "run NumOut (init NumOut) (one_value_run NumOut) = Some s"
    and m: "main_pc s = MPrint" and v: "sent s = [1]"
    by (cases "run NumOut (init NumOut) (one_value_run NumOut)") simp_all
  from conservation [OF r] m v r show ?thesis by simp
qed

text \<open>C2. The Generator's sequence. In every reachable state the values passed over
  \<open>chIn\<close> are \<open>1, 2, ..., k\<close> as 64-bit integers, in this order (the \<open>k\<close>-th value
  sent is \<open>k\<close>). The hook \<open>fn\<close> has been called with exactly these values, in the same
  order, once each; only while the Generator stands between \<open>ch <- g\<close> and the call
  of \<open>fn(g)\<close> the last value sent, which is \<open>g\<close>, is still to come. Read as integers,
  the values are \<open>1, 2, ..., k\<close> and strictly increasing as long as fewer than \<open>2^63\<close>
  values have been sent, the range of \<open>int64\<close>. And the Generator goes on: at its
  \<open>select\<close> with the context not cancelled it makes \<open>g\<close> the next number and stands
  at the send; there every worker that stands at its receive can take exactly this
  number; after the send the Generator's next two steps are the call of the hook with the
  value just sent, and they bring it back to the \<open>select\<close>.\<close>

theorem generator_sequence:
  assumes "run n (init n) sched = Some s"
  shows "sent s = map of_nat [1..<Suc (length (sent s))]
    \<and> hooked s = (if gen_pc s = GHookSum then butlast (sent s) else sent s)
    \<and> (gen_pc s = GHookSum \<longrightarrow> sent s \<noteq> [] \<and> gen_g s = last (sent s))
    \<and> (length (sent s) < 2 ^ 63 \<longrightarrow>
          map sint (sent s) = map int [1..<Suc (length (sent s))]
          \<and> sorted_wrt (<) (map sint (sent s)))
    \<and> (exit_status s = None \<and> gen_pc s = GSelect \<and> \<not> ctx_done s \<longrightarrow>
          step n Gen s
            = Some (s\<lparr>gen_g := of_nat (Suc (length (sent s))), gen_pc := GSend\<rparr>))
    \<and> (\<forall>i<n. exit_status s = None \<and> gen_pc s = GSend \<and> wpc s ! i = WRecv \<longrightarrow>
          step n (ChIn i) s
            = Some (s\<lparr>gen_pc := GHookSum,
                wpc := (wpc s)[i := WSend (of_nat (Suc (length (sent s))))],
                sent := sent s @ [of_nat (Suc (length (sent s)))],
                wrecv := (wrecv s)[i := wrecv s ! i @ [of_nat (Suc (length (sent s)))]]\<rparr>))
    \<and> (exit_status s = None \<and> gen_pc s = GHookSum \<longrightarrow>
          step n Gen s
            = Some (s\<lparr>inputSum := inputSum s + last (sent s), hooked := sent s,
                gen_pc := GHookCount\<rparr>))
    \<and> (exit_status s = None \<and> gen_pc s = GHookCount \<longrightarrow>
          step n Gen s = Some (s\<lparr>inputCount := inputCount s + 1, gen_pc := GSelect\<rparr>))"
proof -
  note inv = reachable_inv [OF assms]
  note c = sent_counting [OF inv]
  note g = invD(3) [OF inv]
  have f1: "sent s = map of_nat [1..<Suc (length (sent s))]"
    using c unfolding counting_def .
  have f2: "hooked s = (if gen_pc s = GHookSum then butlast (sent s) else sent s)"
    using g by (simp add: gen_inv_def)
  have f3: "gen_pc s = GHookSum \<longrightarrow> sent s \<noteq> [] \<and> gen_g s = last (sent s)"
    using g by (simp add: gen_inv_def)
  have f4: "length (sent s) < 2 ^ 63 \<longrightarrow>
      map sint (sent s) = map int [1..<Suc (length (sent s))]
      \<and> sorted_wrt (<) (map sint (sent s))"
  proof
    assume "length (sent s) < 2 ^ 63"
    from counting_sint [OF c this] sorted_int_upt [of 1 "Suc (length (sent s))"]
    show "map sint (sent s) = map int [1..<Suc (length (sent s))]
      \<and> sorted_wrt (<) (map sint (sent s))" by simp
  qed
  have f5: "exit_status s = None \<and> gen_pc s = GSelect \<and> \<not> ctx_done s \<longrightarrow>
      step n Gen s = Some (s\<lparr>gen_g := of_nat (Suc (length (sent s))), gen_pc := GSend\<rparr>)"
  proof
    assume a: "exit_status s = None \<and> gen_pc s = GSelect \<and> \<not> ctx_done s"
    with g have "gen_g s + 1 = of_nat (Suc (length (sent s)))" by (simp add: gen_inv_def)
    with a show "step n Gen s
      = Some (s\<lparr>gen_g := of_nat (Suc (length (sent s))), gen_pc := GSend\<rparr>)"
      by (simp add: step_def Generator_step_def)
  qed
  have f6: "\<forall>i<n. exit_status s = None \<and> gen_pc s = GSend \<and> wpc s ! i = WRecv \<longrightarrow>
      step n (ChIn i) s
        = Some (s\<lparr>gen_pc := GHookSum,
            wpc := (wpc s)[i := WSend (of_nat (Suc (length (sent s))))],
            sent := sent s @ [of_nat (Suc (length (sent s)))],
            wrecv := (wrecv s)[i := wrecv s ! i @ [of_nat (Suc (length (sent s)))]]\<rparr>)"
  proof (intro allI impI)
    fix i
    assume i: "i < n"
      and a: "exit_status s = None \<and> gen_pc s = GSend \<and> wpc s ! i = WRecv"
    from a g have v: "gen_g s = of_nat (Suc (length (sent s)))" and o: "\<not> chIn_closed s"
      by (simp_all add: gen_inv_def)
    from i a o show "step n (ChIn i) s
      = Some (s\<lparr>gen_pc := GHookSum,
          wpc := (wpc s)[i := WSend (of_nat (Suc (length (sent s))))],
          sent := sent s @ [of_nat (Suc (length (sent s)))],
          wrecv := (wrecv s)[i := wrecv s ! i @ [of_nat (Suc (length (sent s)))]]\<rparr>)"
      unfolding v [symmetric] by (simp add: step_def chIn_step_def)
  qed
  have f7: "exit_status s = None \<and> gen_pc s = GHookSum \<longrightarrow>
      step n Gen s
        = Some (s\<lparr>inputSum := inputSum s + last (sent s), hooked := sent s,
            gen_pc := GHookCount\<rparr>)"
  proof
    assume a: "exit_status s = None \<and> gen_pc s = GHookSum"
    with g have v: "last (sent s) = gen_g s" "sent s = hooked s @ [gen_g s]"
      by (simp_all add: gen_inv_def)
    from a show "step n Gen s
      = Some (s\<lparr>inputSum := inputSum s + last (sent s), hooked := sent s,
          gen_pc := GHookCount\<rparr>)"
      unfolding v by (simp add: step_def Generator_step_def)
  qed
  have f8: "exit_status s = None \<and> gen_pc s = GHookCount \<longrightarrow>
      step n Gen s = Some (s\<lparr>inputCount := inputCount s + 1, gen_pc := GSelect\<rparr>)"
    by (simp add: step_def Generator_step_def)
  show ?thesis
    by (rule conjI [OF f1 conjI [OF f2 conjI [OF f3 conjI [OF f4 conjI [OF f5
          conjI [OF f6 conjI [OF f7 f8]]]]]]])
qed

theorem generator_sequence_witness:
  "\<exists>s t. run NumOut (init NumOut) (three_value_run NumOut) = Some s
     \<and> sent s = [1, 2, 3] \<and> hooked s = [1, 2, 3] \<and> length (sent s) < 2 ^ 63
     \<and> map sint (sent s) = [1, 2, 3] \<and> sorted_wrt (<) (map sint (sent s))
     \<and> run NumOut (init NumOut) (second_select_run NumOut) = Some t
     \<and> exit_status t = None \<and> gen_pc t = GSelect \<and> \<not> ctx_done t
     \<and> sent t = [1] \<and> hooked t = [1]
     \<and> step NumOut Gen t = Some (t\<lparr>gen_g := 2, gen_pc := GSend\<rparr>)"
proof -
  have "case run NumOut (init NumOut) (three_value_run NumOut) of None \<Rightarrow> False
    | Some s \<Rightarrow> sent s = [1, 2, 3] \<and> gen_pc s = GDone"
    by code_simp
  then obtain s where r: "run NumOut (init NumOut) (three_value_run NumOut) = Some s"
    and v: "sent s = [1, 2, 3]" and p: "gen_pc s = GDone"
    by (cases "run NumOut (init NumOut) (three_value_run NumOut)") simp_all
  have "case run NumOut (init NumOut) (second_select_run NumOut) of None \<Rightarrow> False
    | Some t \<Rightarrow> sent t = [1] \<and> gen_pc t = GSelect \<and> \<not> ctx_done t \<and> exit_status t = None"
    by code_simp
  then obtain t where r': "run NumOut (init NumOut) (second_select_run NumOut) = Some t"
    and v': "sent t = [1]" and p': "gen_pc t = GSelect" "\<not> ctx_done t" "exit_status t = None"
    by (cases "run NumOut (init NumOut) (second_select_run NumOut)") simp_all
  note a = generator_sequence [OF r]
  note b = generator_sequence [OF r']
  from a have a2: "hooked s = (if gen_pc s = GHookSum then butlast (sent s) else sent s)"
    by blast
  from a have a4: "length (sent s) < 2 ^ 63 \<longrightarrow>
      map sint (sent s) = map int [1..<Suc (length (sent s))]
      \<and> sorted_wrt (<) (map sint (sent s))" by blast
  have l: "length (sent s) < 2 ^ 63" using v by simp
  with a4 have m: "map sint (sent s) = map int [1..<Suc (length (sent s))]"
    and o: "sorted_wrt (<) (map sint (sent s))" by blast+
  have u: "[1..<Suc (Suc (Suc (Suc 0)))] = [1, 2, 3]" by (simp add: upt_rec)
  from m v u have m': "map sint (sent s) = [1, 2, 3]" by simp
  from b have b2: "hooked t = (if gen_pc t = GHookSum then butlast (sent t) else sent t)"
    by blast
  from b have b5: "exit_status t = None \<and> gen_pc t = GSelect \<and> \<not> ctx_done t \<longrightarrow>
      step NumOut Gen t
        = Some (t\<lparr>gen_g := of_nat (Suc (length (sent t))), gen_pc := GSend\<rparr>)" by blast
  with p' v' have q: "step NumOut Gen t = Some (t\<lparr>gen_g := 2, gen_pc := GSend\<rparr>)" by simp
  from a2 p v have h: "hooked s = [1, 2, 3]" by simp
  from b2 p' v' have h': "hooked t = [1]" by simp
  show ?thesis
    by (intro exI [of _ s] exI [of _ t] conjI r v h l m' o r' p' v' h' q)
qed

text \<open>C3. The Generator closes \<open>chIn\<close> exactly once. The number of executed
  \<open>close(chIn)\<close> is 0 until the Generator has returned and 1 afterwards; the channel
  is closed exactly when the Generator has returned, which happens only after
  cancellation; no run panics (status 2), so no second close is ever attempted; no step
  of another goroutine closes \<open>chIn\<close>; and a Generator that finds the context
  cancelled at its \<open>select\<close> returns in two steps, closing the channel, and then has no
  further step.\<close>

theorem generator_closes_once:
  assumes "run n (init n) sched = Some s"
  shows "chIn_closes s = (if gen_pc s = GDone then 1 else 0)
    \<and> (chIn_closed s \<longleftrightarrow> gen_pc s = GDone)
    \<and> (gen_pc s = GDefer \<or> gen_pc s = GDone \<longrightarrow> ctx_done s)
    \<and> exit_status s \<noteq> Some 2
    \<and> (\<forall>a s'. step n a s = Some s' \<and> a \<noteq> Gen \<longrightarrow>
          chIn_closed s' = chIn_closed s \<and> chIn_closes s' = chIn_closes s)
    \<and> (gen_pc s = GSelect \<and> ctx_done s \<and> exit_status s = None \<longrightarrow>
          (\<exists>s1 s2. step n Gen s = Some s1 \<and> step n Gen s1 = Some s2 \<and> gen_pc s2 = GDone
             \<and> chIn_closed s2 \<and> chIn_closes s2 = 1 \<and> step n Gen s2 = None))"
proof -
  note inv = reachable_inv [OF assms]
  note g = invD(3) [OF inv, unfolded gen_inv_def]
  have a: "chIn_closes s = (if gen_pc s = GDone then 1 else 0)"
    "chIn_closed s \<longleftrightarrow> gen_pc s = GDone"
    "gen_pc s = GDefer \<or> gen_pc s = GDone \<longrightarrow> ctx_done s"
    using g by blast+
  have b: "exit_status s \<noteq> Some 2" using no_failure [OF inv] by auto
  have c: "\<forall>a s'. step n a s = Some s' \<and> a \<noteq> Gen \<longrightarrow>
      chIn_closed s' = chIn_closed s \<and> chIn_closes s' = chIn_closes s"
    using others_keep_chIn by blast
  have d: "\<exists>s1 s2. step n Gen s = Some s1 \<and> step n Gen s1 = Some s2 \<and> gen_pc s2 = GDone
      \<and> chIn_closed s2 \<and> chIn_closes s2 = 1 \<and> step n Gen s2 = None"
    if "gen_pc s = GSelect \<and> ctx_done s \<and> exit_status s = None"
  proof (intro exI conjI)
    show "step n Gen s = Some (s\<lparr>gen_pc := GDefer\<rparr>)"
      using that by (simp add: step_def Generator_step_def)
    show "step n Gen (s\<lparr>gen_pc := GDefer\<rparr>)
      = Some (s\<lparr>gen_pc := GDone, chIn_closed := True, chIn_closes := Suc (chIn_closes s)\<rparr>)"
      using that a by (simp add: step_def Generator_step_def)
    show "chIn_closes (s\<lparr>gen_pc := GDone, chIn_closed := True,
        chIn_closes := Suc (chIn_closes s)\<rparr>) = 1"
      using that a by simp
    show "step n Gen (s\<lparr>gen_pc := GDone, chIn_closed := True,
        chIn_closes := Suc (chIn_closes s)\<rparr>) = None"
      by (simp add: step_def Generator_step_def)
  qed simp_all
  from a b c d show ?thesis by blast
qed

theorem generator_closes_once_witness:
  "\<exists>s. run NumOut (init NumOut) (one_value_run NumOut) = Some s
     \<and> gen_pc s = GDone \<and> chIn_closes s = 1 \<and> chIn_closed s \<and> ctx_done s"
proof -
  have "case run NumOut (init NumOut) (one_value_run NumOut) of None \<Rightarrow> False
    | Some s \<Rightarrow> gen_pc s = GDone"
    by code_simp
  then obtain s where r: "run NumOut (init NumOut) (one_value_run NumOut) = Some s"
    and g: "gen_pc s = GDone"
    by (cases "run NumOut (init NumOut) (one_value_run NumOut)") simp_all
  from generator_closes_once [OF r] g r show ?thesis by simp
qed

text \<open>C4. A deadline that has already passed. Once the context is cancelled the
  Generator sends at most one more value, whatever the other goroutines do: the
  \<open>select\<close> is polled before each \<open>g++\<close>, so only a send that was already under way
  can still happen. If the context is cancelled while the Generator has not started or
  stands at its \<open>select\<close>, it sends nothing more at all. So with a deadline that is
  expired when the Generator starts the number of generated values is 0, which lies in
  \<open>{0, 1}\<close>.\<close>

theorem cancelled_generator:
  assumes "ctx_done s0" "run n s0 sched = Some s"
  shows "length (sent s) \<le> Suc (length (sent s0))
    \<and> (sent s0 = [] \<longrightarrow> length (sent s) \<le> 1)
    \<and> (gen_pc s0 = GIdle \<or> gen_pc s0 = GSelect \<longrightarrow> sent s = sent s0 \<and> hooked s = hooked s0)"
proof -
  note c = cancelled_run [OF assms(2,1)]
  have a: "length (sent s) \<le> Suc (length (sent s0))"
    using c by (simp split: if_splits)
  then have b: "sent s0 = [] \<longrightarrow> length (sent s) \<le> 1" by auto
  have "sent s = sent s0 \<and> hooked s = hooked s0" if "gen_pc s0 = GIdle \<or> gen_pc s0 = GSelect"
  proof -
    from that have "g_resting (gen_pc s0)" by auto
    with c show ?thesis by blast
  qed
  with a b show ?thesis by blast
qed

theorem cancelled_generator_witness:
  "\<exists>s. ctx_done ((init NumOut)\<lparr>ctx_done := True\<rparr>)
     \<and> run NumOut ((init NumOut)\<lparr>ctx_done := True\<rparr>) (expired_run NumOut) = Some s
     \<and> main_pc s = MPrint \<and> sent s = [] \<and> length (sent s) \<le> 1 \<and> inputCount s = 0"
proof -
  have "case run NumOut ((init NumOut)\<lparr>ctx_done := True\<rparr>) (expired_run NumOut) of
      None \<Rightarrow> False | Some s \<Rightarrow> main_pc s = MPrint \<and> inputCount s = 0"
    by code_simp
  then obtain s
    where r: "run NumOut ((init NumOut)\<lparr>ctx_done := True\<rparr>) (expired_run NumOut) = Some s"
      and m: "main_pc s = MPrint" "inputCount s = 0"
    by (cases "run NumOut ((init NumOut)\<lparr>ctx_done := True\<rparr>) (expired_run NumOut)") simp_all
  have c: "ctx_done ((init NumOut)\<lparr>ctx_done := True\<rparr>)" by simp
  have e: "sent ((init NumOut)\<lparr>ctx_done := True\<rparr>) = []"
    "gen_pc ((init NumOut)\<lparr>ctx_done := True\<rparr>) = GIdle"
    by (simp_all add: init_def)
  from cancelled_generator [OF c r] e m r show ?thesis by simp
qed

text \<open>C5. A worker forwards what it receives, unchanged. For worker \<open>i\<close>, in every
  reachable state, the values received from \<open>chIn\<close> are the values passed on over
  \<open>outs[i]\<close>, in the same order, followed by the one value the worker may hold at
  \<open>out <- v\<close>; when the worker has finished, both lists are equal. The worker leaves
  its loop only when \<open>chIn\<close> is closed; \<open>outs[i]\<close> is closed exactly when it has
  finished, by exactly one \<open>close\<close>. And the loop goes round: a worker at its receive
  takes the value the Generator offers, as it is; holding \<open>v\<close> it hands \<open>v\<close> to its
  collector as soon as the collector stands at its receive, and then is in
  \<open>time.Sleep\<close>; every pause is for \<open>time.Millisecond\<close>, during it the worker does not
  receive, and it ends at the receive; at the receive with \<open>chIn\<close> closed the worker
  leaves the loop, its next step closes \<open>outs[i]\<close>, and then it has no step at all.\<close>

theorem worker_forwards:
  assumes "run n (init n) sched = Some s" "i < n"
  shows "wrecv s ! i = outs_hist s ! i @ w_pending (wpc s ! i)
    \<and> (wpc s ! i = WDone \<longrightarrow> outs_hist s ! i = wrecv s ! i)
    \<and> (wpc s ! i = WDefer \<or> wpc s ! i = WDone \<longrightarrow> chIn_closed s)
    \<and> (outs_closed s ! i \<longleftrightarrow> wpc s ! i = WDone)
    \<and> outs_closes s ! i = (if wpc s ! i = WDone then 1 else 0)
    \<and> (exit_status s = None \<and> wpc s ! i = WRecv \<and> gen_pc s = GSend \<longrightarrow>
          step n (ChIn i) s
            = Some (s\<lparr>gen_pc := GHookSum, wpc := (wpc s)[i := WSend (gen_g s)],
                sent := sent s @ [gen_g s],
                wrecv := (wrecv s)[i := wrecv s ! i @ [gen_g s]]\<rparr>))
    \<and> (\<forall>v. exit_status s = None \<and> wpc s ! i = WSend v \<and> cpc s ! i = CRecv \<longrightarrow>
          step n (Outs i) s
            = Some (s\<lparr>wpc := (wpc s)[i := WSleep Millisecond], cpc := (cpc s)[i := CInc v],
                outs_hist := (outs_hist s)[i := outs_hist s ! i @ [v]]\<rparr>))
    \<and> (\<forall>d. exit_status s = None \<and> wpc s ! i = WSleep d \<longrightarrow>
          d = Millisecond \<and> step n (ChIn i) s = None
          \<and> step n (Work i) s = Some (s\<lparr>wpc := (wpc s)[i := WRecv]\<rparr>))
    \<and> (exit_status s = None \<and> wpc s ! i = WRecv \<and> chIn_closed s \<longrightarrow>
          step n (Work i) s = Some (s\<lparr>wpc := (wpc s)[i := WDefer]\<rparr>))
    \<and> (exit_status s = None \<and> wpc s ! i = WDefer \<longrightarrow>
          step n (Work i) s
            = Some (s\<lparr>outs_closed := (outs_closed s)[i := True],
                outs_closes := (outs_closes s)[i := Suc (outs_closes s ! i)],
                wpc := (wpc s)[i := WDone]\<rparr>))
    \<and> (wpc s ! i = WDone \<longrightarrow>
          step n (Work i) s = None \<and> step n (ChIn i) s = None \<and> step n (Outs i) s = None)"
proof -
  note inv = reachable_inv [OF assms(1)]
  note g = invD(3) [OF inv]
  have w: "(wpc s ! i = WDefer \<or> wpc s ! i = WDone \<longrightarrow> chIn_closed s)
     \<and> (outs_closed s ! i \<longleftrightarrow> wpc s ! i = WDone)
     \<and> outs_closes s ! i = (if wpc s ! i = WDone then 1 else 0)
     \<and> wrecv s ! i = outs_hist s ! i @ w_pending (wpc s ! i)
     \<and> w_delay (wpc s ! i) = Millisecond"
    using invD(5) [OF inv] assms(2) unfolding worker_inv_def by blast
  from w have f1: "wrecv s ! i = outs_hist s ! i @ w_pending (wpc s ! i)" by blast
  from f1 have f2: "wpc s ! i = WDone \<longrightarrow> outs_hist s ! i = wrecv s ! i" by simp
  from w have f3: "wpc s ! i = WDefer \<or> wpc s ! i = WDone \<longrightarrow> chIn_closed s" by blast
  from w have f4: "outs_closed s ! i \<longleftrightarrow> wpc s ! i = WDone" by blast
  from w have f5: "outs_closes s ! i = (if wpc s ! i = WDone then 1 else 0)" by blast
  from w have dl: "w_delay (wpc s ! i) = Millisecond" by blast
  have f6: "exit_status s = None \<and> wpc s ! i = WRecv \<and> gen_pc s = GSend \<longrightarrow>
      step n (ChIn i) s
        = Some (s\<lparr>gen_pc := GHookSum, wpc := (wpc s)[i := WSend (gen_g s)],
            sent := sent s @ [gen_g s],
            wrecv := (wrecv s)[i := wrecv s ! i @ [gen_g s]]\<rparr>)"
  proof
    assume a: "exit_status s = None \<and> wpc s ! i = WRecv \<and> gen_pc s = GSend"
    with g have "\<not> chIn_closed s" by (simp add: gen_inv_def)
    with a assms(2) show "step n (ChIn i) s
      = Some (s\<lparr>gen_pc := GHookSum, wpc := (wpc s)[i := WSend (gen_g s)],
          sent := sent s @ [gen_g s],
          wrecv := (wrecv s)[i := wrecv s ! i @ [gen_g s]]\<rparr>)"
      by (simp add: step_def chIn_step_def)
  qed
  have f7: "\<forall>v. exit_status s = None \<and> wpc s ! i = WSend v \<and> cpc s ! i = CRecv \<longrightarrow>
      step n (Outs i) s
        = Some (s\<lparr>wpc := (wpc s)[i := WSleep Millisecond], cpc := (cpc s)[i := CInc v],
            outs_hist := (outs_hist s)[i := outs_hist s ! i @ [v]]\<rparr>)"
  proof (intro allI impI)
    fix v
    assume a: "exit_status s = None \<and> wpc s ! i = WSend v \<and> cpc s ! i = CRecv"
    with f4 have "\<not> outs_closed s ! i" by simp
    with a assms(2) show "step n (Outs i) s
      = Some (s\<lparr>wpc := (wpc s)[i := WSleep Millisecond], cpc := (cpc s)[i := CInc v],
          outs_hist := (outs_hist s)[i := outs_hist s ! i @ [v]]\<rparr>)"
      by (simp add: step_def outs_step_def)
  qed
  have f8: "\<forall>d. exit_status s = None \<and> wpc s ! i = WSleep d \<longrightarrow>
      d = Millisecond \<and> step n (ChIn i) s = None
      \<and> step n (Work i) s = Some (s\<lparr>wpc := (wpc s)[i := WRecv]\<rparr>)"
  proof (intro allI impI)
    fix d
    assume a: "exit_status s = None \<and> wpc s ! i = WSleep d"
    with dl have "d = Millisecond" by simp
    moreover from a assms(2) have "step n (ChIn i) s = None"
      by (simp add: step_def chIn_step_def)
    moreover from a assms(2)
    have "step n (Work i) s = Some (s\<lparr>wpc := (wpc s)[i := WRecv]\<rparr>)"
      by (simp add: step_def Worker_step_def)
    ultimately show "d = Millisecond \<and> step n (ChIn i) s = None
      \<and> step n (Work i) s = Some (s\<lparr>wpc := (wpc s)[i := WRecv]\<rparr>)" by blast
  qed
  have f9: "exit_status s = None \<and> wpc s ! i = WRecv \<and> chIn_closed s \<longrightarrow>
      step n (Work i) s = Some (s\<lparr>wpc := (wpc s)[i := WDefer]\<rparr>)"
    using assms(2) by (simp add: step_def Worker_step_def)
  have f10: "exit_status s = None \<and> wpc s ! i = WDefer \<longrightarrow>
      step n (Work i) s
        = Some (s\<lparr>outs_closed := (outs_closed s)[i := True],
            outs_closes := (outs_closes s)[i := Suc (outs_closes s ! i)],
            wpc := (wpc s)[i := WDone]\<rparr>)"
  proof
    assume a: "exit_status s = None \<and> wpc s ! i = WDefer"
    with f4 have "\<not> outs_closed s ! i" by simp
    with a assms(2) show "step n (Work i) s
      = Some (s\<lparr>outs_closed := (outs_closed s)[i := True],
          outs_closes := (outs_closes s)[i := Suc (outs_closes s ! i)],
          wpc := (wpc s)[i := WDone]\<rparr>)"
      by (simp add: step_def Worker_step_def)
  qed
  have f11: "wpc s ! i = WDone \<longrightarrow>
      step n (Work i) s = None \<and> step n (ChIn i) s = None \<and> step n (Outs i) s = None"
    using assms(2) by (simp add: step_def Worker_step_def chIn_step_def outs_step_def)
  show ?thesis
    by (rule conjI [OF f1 conjI [OF f2 conjI [OF f3 conjI [OF f4 conjI [OF f5 conjI [OF f6
          conjI [OF f7 conjI [OF f8 conjI [OF f9 conjI [OF f10 f11]]]]]]]]]])
qed

theorem worker_forwards_witness:
  "\<exists>s t. run NumOut (init NumOut) (three_value_run NumOut) = Some s \<and> (0::nat) < NumOut
     \<and> wrecv s ! 0 = [1, 3] \<and> outs_hist s ! 0 = [1, 3] \<and> wpc s ! 0 = WDone
     \<and> outs_closes s ! 0 = 1 \<and> outs_closed s ! 0
     \<and> run NumOut (init NumOut) (second_select_run NumOut) = Some t
     \<and> exit_status t = None \<and> wpc t ! 0 = WSend 1 \<and> cpc t ! 0 = CRecv
     \<and> step NumOut (Outs 0) t
         = Some (t\<lparr>wpc := (wpc t)[0 := WSleep Millisecond], cpc := (cpc t)[0 := CInc 1],
             outs_hist := (outs_hist t)[0 := outs_hist t ! 0 @ [1]]\<rparr>)"
proof -
  have "case run NumOut (init NumOut) (three_value_run NumOut) of None \<Rightarrow> False
    | Some s \<Rightarrow> wrecv s ! 0 = [1, 3] \<and> wpc s ! 0 = WDone"
    by code_simp
  then obtain s where r: "run NumOut (init NumOut) (three_value_run NumOut) = Some s"
    and v: "wrecv s ! 0 = [1, 3]" and p: "wpc s ! 0 = WDone"
    by (cases "run NumOut (init NumOut) (three_value_run NumOut)") simp_all
  have "case run NumOut (init NumOut) (second_select_run NumOut) of None \<Rightarrow> False
    | Some t \<Rightarrow> exit_status t = None \<and> wpc t ! 0 = WSend 1 \<and> cpc t ! 0 = CRecv"
    by code_simp
  then obtain t where r': "run NumOut (init NumOut) (second_select_run NumOut) = Some t"
    and p': "exit_status t = None" "wpc t ! 0 = WSend 1" "cpc t ! 0 = CRecv"
    by (cases "run NumOut (init NumOut) (second_select_run NumOut)") simp_all
  have n: "(0::nat) < NumOut" by (simp add: NumOut_def)
  note a = worker_forwards [OF r n]
  note b = worker_forwards [OF r' n]
  from a have a2: "wpc s ! 0 = WDone \<longrightarrow> outs_hist s ! 0 = wrecv s ! 0" by blast
  from a have a4: "outs_closed s ! 0 \<longleftrightarrow> wpc s ! 0 = WDone" by blast
  from a have a5: "outs_closes s ! 0 = (if wpc s ! 0 = WDone then 1 else 0)" by blast
  from b have b7: "\<forall>v. exit_status t = None \<and> wpc t ! 0 = WSend v \<and> cpc t ! 0 = CRecv \<longrightarrow>
      step NumOut (Outs 0) t
        = Some (t\<lparr>wpc := (wpc t)[0 := WSleep Millisecond], cpc := (cpc t)[0 := CInc v],
            outs_hist := (outs_hist t)[0 := outs_hist t ! 0 @ [v]]\<rparr>)" by blast
  from a2 p v have h: "outs_hist s ! 0 = [1, 3]" by simp
  from a4 p have c: "outs_closed s ! 0" by simp
  from a5 p have k: "outs_closes s ! 0 = 1" by simp
  from b7 p' have q: "step NumOut (Outs 0) t
      = Some (t\<lparr>wpc := (wpc t)[0 := WSleep Millisecond], cpc := (cpc t)[0 := CInc 1],
          outs_hist := (outs_hist t)[0 := outs_hist t ! 0 @ [1]]\<rparr>)" by blast
  show ?thesis
    by (intro exI [of _ s] exI [of _ t] conjI r n v h p k c r' p' q)
qed

text \<open>C6. A collector counts what it forwards. For collector \<open>i\<close>, in every reachable
  state, the values taken from \<open>outs[i]\<close> are the values put into \<open>chOut\<close>, unchanged and
  in order, followed by the one value the collector may hold; \<open>amounts[i]\<close> is the number
  of values put into \<open>chOut\<close>, plus one while the collector stands between \<open>amounts[i]++\<close>
  and \<open>chOut <- val\<close> (the increment comes first in the source). At the head of its loop
  and after it, the counter is the number of values received and everything received has
  been forwarded; the loop is left only when \<open>outs[i]\<close> is closed. No step of another
  goroutine changes \<open>amounts[i]\<close>. The counter is an \<open>int64\<close>: read as an integer it is
  that number as long as fewer than \<open>2^63\<close> values have passed. And the loop goes round:
  at its receive the collector takes the value its worker holds; its next step is the
  increment of \<open>amounts[i]\<close> by one, the step after it puts the value into \<open>chOut\<close> as
  soon as the buffer has room; at the receive with \<open>outs[i]\<close> closed it leaves the loop,
  and its last step is \<open>wg.Done()\<close>.\<close>

theorem collector_counts:
  assumes "run n (init n) sched = Some s" "i < n"
  shows "outs_hist s ! i = cfwd s ! i @ c_pending (cpc s ! i)
    \<and> amounts s ! i = of_nat (length (cfwd s ! i)) + c_counted (cpc s ! i)
    \<and> (cpc s ! i = CRecv \<or> cpc s ! i = CDefer \<or> cpc s ! i = CDone \<longrightarrow>
          cfwd s ! i = outs_hist s ! i \<and> amounts s ! i = of_nat (length (outs_hist s ! i)))
    \<and> (cpc s ! i = CDefer \<or> cpc s ! i = CDone \<longrightarrow> outs_closed s ! i)
    \<and> (\<forall>a s'. step n a s = Some s' \<and> a \<noteq> Coll i \<longrightarrow> amounts s' ! i = amounts s ! i)
    \<and> (length (outs_hist s ! i) < 2 ^ 63 \<longrightarrow>
          sint (amounts s ! i) = int (length (cfwd s ! i)) + sint (c_counted (cpc s ! i)))
    \<and> (\<forall>v. exit_status s = None \<and> cpc s ! i = CRecv \<and> wpc s ! i = WSend v \<longrightarrow>
          step n (Outs i) s
            = Some (s\<lparr>wpc := (wpc s)[i := WSleep Millisecond], cpc := (cpc s)[i := CInc v],
                outs_hist := (outs_hist s)[i := outs_hist s ! i @ [v]]\<rparr>))
    \<and> (\<forall>v. exit_status s = None \<and> cpc s ! i = CInc v \<longrightarrow>
          step n (Coll i) s
            = Some (s\<lparr>amounts := (amounts s)[i := amounts s ! i + 1],
                cpc := (cpc s)[i := CSend v]\<rparr>))
    \<and> (\<forall>v. exit_status s = None \<and> cpc s ! i = CSend v \<and> length (chOut s) < n \<longrightarrow>
          step n (Coll i) s
            = Some (s\<lparr>chOut := chOut s @ [v], cfwd := (cfwd s)[i := cfwd s ! i @ [v]],
                cpc := (cpc s)[i := CRecv]\<rparr>))
    \<and> (exit_status s = None \<and> cpc s ! i = CRecv \<and> outs_closed s ! i \<longrightarrow>
          step n (Coll i) s = Some (s\<lparr>cpc := (cpc s)[i := CDefer]\<rparr>))
    \<and> (exit_status s = None \<and> cpc s ! i = CDefer \<longrightarrow>
          step n (Coll i) s = Some (s\<lparr>wg := wg s - 1, cpc := (cpc s)[i := CDone]\<rparr>))"
proof -
  note inv = reachable_inv [OF assms(1)]
  have c: "(cpc s ! i = CDefer \<or> cpc s ! i = CDone \<longrightarrow> outs_closed s ! i)
     \<and> outs_hist s ! i = cfwd s ! i @ c_pending (cpc s ! i)
     \<and> amounts s ! i = of_nat (length (cfwd s ! i)) + c_counted (cpc s ! i)"
    using invD(6) [OF inv] assms(2) unfolding coll_inv_def by blast
  from c have f1: "outs_hist s ! i = cfwd s ! i @ c_pending (cpc s ! i)" by blast
  from c have f2: "amounts s ! i = of_nat (length (cfwd s ! i)) + c_counted (cpc s ! i)"
    by blast
  have f3: "cpc s ! i = CRecv \<or> cpc s ! i = CDefer \<or> cpc s ! i = CDone \<longrightarrow>
      cfwd s ! i = outs_hist s ! i \<and> amounts s ! i = of_nat (length (outs_hist s ! i))"
  proof
    assume "cpc s ! i = CRecv \<or> cpc s ! i = CDefer \<or> cpc s ! i = CDone"
    then have "c_pending (cpc s ! i) = []" "c_counted (cpc s ! i) = 0" by auto
    with f1 f2 show "cfwd s ! i = outs_hist s ! i
      \<and> amounts s ! i = of_nat (length (outs_hist s ! i))" by simp
  qed
  from c have f4: "cpc s ! i = CDefer \<or> cpc s ! i = CDone \<longrightarrow> outs_closed s ! i" by blast
  have f5: "\<forall>a s'. step n a s = Some s' \<and> a \<noteq> Coll i \<longrightarrow> amounts s' ! i = amounts s ! i"
    using others_keep_amount by blast
  have f6: "length (outs_hist s ! i) < 2 ^ 63 \<longrightarrow>
      sint (amounts s ! i) = int (length (cfwd s ! i)) + sint (c_counted (cpc s ! i))"
    using amount_sint [OF f2 f1] by blast
  have w4: "outs_closed s ! i \<longleftrightarrow> wpc s ! i = WDone"
    using invD(5) [OF inv] assms(2) unfolding worker_inv_def by blast
  have f7: "\<forall>v. exit_status s = None \<and> cpc s ! i = CRecv \<and> wpc s ! i = WSend v \<longrightarrow>
      step n (Outs i) s
        = Some (s\<lparr>wpc := (wpc s)[i := WSleep Millisecond], cpc := (cpc s)[i := CInc v],
            outs_hist := (outs_hist s)[i := outs_hist s ! i @ [v]]\<rparr>)"
  proof (intro allI impI)
    fix v
    assume a: "exit_status s = None \<and> cpc s ! i = CRecv \<and> wpc s ! i = WSend v"
    with w4 have "\<not> outs_closed s ! i" by simp
    with a assms(2) show "step n (Outs i) s
      = Some (s\<lparr>wpc := (wpc s)[i := WSleep Millisecond], cpc := (cpc s)[i := CInc v],
          outs_hist := (outs_hist s)[i := outs_hist s ! i @ [v]]\<rparr>)"
      by (simp add: step_def outs_step_def)
  qed
  have f8: "\<forall>v. exit_status s = None \<and> cpc s ! i = CInc v \<longrightarrow>
      step n (Coll i) s
        = Some (s\<lparr>amounts := (amounts s)[i := amounts s ! i + 1],
            cpc := (cpc s)[i := CSend v]\<rparr>)"
    using assms(2) by (simp add: step_def collector_step_def)
  have f9: "\<forall>v. exit_status s = None \<and> cpc s ! i = CSend v \<and> length (chOut s) < n \<longrightarrow>
      step n (Coll i) s
        = Some (s\<lparr>chOut := chOut s @ [v], cfwd := (cfwd s)[i := cfwd s ! i @ [v]],
            cpc := (cpc s)[i := CRecv]\<rparr>)"
  proof (intro allI impI)
    fix v
    assume a: "exit_status s = None \<and> cpc s ! i = CSend v \<and> length (chOut s) < n"
    have "\<not> chOut_closed s"
    proof
      assume "chOut_closed s"
      from closed_collectors [OF inv this assms(2)] a show False by simp
    qed
    with a assms(2) show "step n (Coll i) s
      = Some (s\<lparr>chOut := chOut s @ [v], cfwd := (cfwd s)[i := cfwd s ! i @ [v]],
          cpc := (cpc s)[i := CRecv]\<rparr>)"
      by (simp add: step_def collector_step_def)
  qed
  have f10: "exit_status s = None \<and> cpc s ! i = CRecv \<and> outs_closed s ! i \<longrightarrow>
      step n (Coll i) s = Some (s\<lparr>cpc := (cpc s)[i := CDefer]\<rparr>)"
    using assms(2) by (simp add: step_def collector_step_def)
  have f11: "exit_status s = None \<and> cpc s ! i = CDefer \<longrightarrow>
      step n (Coll i) s = Some (s\<lparr>wg := wg s - 1, cpc := (cpc s)[i := CDone]\<rparr>)"
  proof
    assume a: "exit_status s = None \<and> cpc s ! i = CDefer"
    then have "0 < wg s" using wg_positive [OF inv assms(2)] by blast
    with a assms(2) show "step n (Coll i) s
      = Some (s\<lparr>wg := wg s - 1, cpc := (cpc s)[i := CDone]\<rparr>)"
      by (simp add: step_def collector_step_def)
  qed
  show ?thesis
    by (rule conjI [OF f1 conjI [OF f2 conjI [OF f3 conjI [OF f4 conjI [OF f5 conjI [OF f6
          conjI [OF f7 conjI [OF f8 conjI [OF f9 conjI [OF f10 f11]]]]]]]]]])
qed

theorem collector_counts_witness:
  "\<exists>s t. run NumOut (init NumOut) (three_value_run NumOut) = Some s \<and> (0::nat) < NumOut
     \<and> cpc s ! 0 = CDone \<and> outs_hist s ! 0 = [1, 3] \<and> cfwd s ! 0 = [1, 3]
     \<and> amounts s ! 0 = 2 \<and> length (outs_hist s ! 0) < 2 ^ 63 \<and> sint (amounts s ! 0) = 2
     \<and> run NumOut (init NumOut) (second_select_run NumOut @ [Outs 0]) = Some t
     \<and> exit_status t = None \<and> cpc t ! 0 = CInc 1 \<and> amounts t ! 0 = 0
     \<and> step NumOut (Coll 0) t
         = Some (t\<lparr>amounts := (amounts t)[0 := amounts t ! 0 + 1],
             cpc := (cpc t)[0 := CSend 1]\<rparr>)"
proof -
  have "case run NumOut (init NumOut) (three_value_run NumOut) of None \<Rightarrow> False
    | Some s \<Rightarrow> outs_hist s ! 0 = [1, 3] \<and> cpc s ! 0 = CDone"
    by code_simp
  then obtain s where r: "run NumOut (init NumOut) (three_value_run NumOut) = Some s"
    and v: "outs_hist s ! 0 = [1, 3]" and p: "cpc s ! 0 = CDone"
    by (cases "run NumOut (init NumOut) (three_value_run NumOut)") simp_all
  have "case run NumOut (init NumOut) (second_select_run NumOut @ [Outs 0]) of
      None \<Rightarrow> False
    | Some t \<Rightarrow> exit_status t = None \<and> cpc t ! 0 = CInc 1 \<and> outs_hist t ! 0 = [1]"
    by code_simp
  then obtain t
    where r': "run NumOut (init NumOut) (second_select_run NumOut @ [Outs 0]) = Some t"
      and p': "exit_status t = None" "cpc t ! 0 = CInc 1" and v': "outs_hist t ! 0 = [1]"
    by (cases "run NumOut (init NumOut) (second_select_run NumOut @ [Outs 0])") simp_all
  have n: "(0::nat) < NumOut" by (simp add: NumOut_def)
  note a = collector_counts [OF r n]
  note b = collector_counts [OF r' n]
  from a have a1: "outs_hist s ! 0 = cfwd s ! 0 @ c_pending (cpc s ! 0)" by (rule conjunct1)
  from a have a2: "amounts s ! 0 = of_nat (length (cfwd s ! 0)) + c_counted (cpc s ! 0)"
    by blast
  from a have a6: "length (outs_hist s ! 0) < 2 ^ 63 \<longrightarrow>
      sint (amounts s ! 0) = int (length (cfwd s ! 0)) + sint (c_counted (cpc s ! 0))"
    by blast
  from a1 v p have d: "cfwd s ! 0 = [1, 3]" by simp
  with a2 p have e: "amounts s ! 0 = 2" by simp
  have l: "length (outs_hist s ! 0) < 2 ^ 63" using v by simp
  with a6 d p have i: "sint (amounts s ! 0) = 2" by simp
  from b have b1: "outs_hist t ! 0 = cfwd t ! 0 @ c_pending (cpc t ! 0)" by (rule conjunct1)
  from b have b2: "amounts t ! 0 = of_nat (length (cfwd t ! 0)) + c_counted (cpc t ! 0)"
    by blast
  from b have b8: "\<forall>v. exit_status t = None \<and> cpc t ! 0 = CInc v \<longrightarrow>
      step NumOut (Coll 0) t
        = Some (t\<lparr>amounts := (amounts t)[0 := amounts t ! 0 + 1],
            cpc := (cpc t)[0 := CSend v]\<rparr>)" by blast
  from b1 v' p' have "cfwd t ! 0 = []" by simp
  with b2 p' have e': "amounts t ! 0 = 0" by simp
  from b8 p' have q: "step NumOut (Coll 0) t
      = Some (t\<lparr>amounts := (amounts t)[0 := amounts t ! 0 + 1],
          cpc := (cpc t)[0 := CSend 1]\<rparr>)" by blast
  show ?thesis
    by (intro exI [of _ s] exI [of _ t] conjI r n p v d e l i r' p' e' q)
qed

text \<open>C7. \<open>chOut\<close> is closed after the join, once. In every reachable state: \<open>chOut\<close> is
  closed exactly when the closing goroutine has finished; when that goroutine has passed
  \<open>wg.Wait()\<close>, every collector has finished, so no collector stands at \<open>chOut <- val\<close>
  while \<open>chOut\<close> is closed; the number of executed \<open>close(chOut)\<close> is 0 before and 1
  after, and it is 1 when \<open>main\<close> has left its \<open>range\<close> loop; no run panics; no step of
  another goroutine closes \<open>chOut\<close>. The barrier is real: once the closing goroutine
  exists, the WaitGroup counter is the number of collectors that have not finished;
  \<open>wg.Wait()\<close> returns when the counter is 0 and blocks otherwise; the step after it is
  the close, and then the goroutine has no further step.\<close>

theorem merge_closed_after_join:
  assumes "run n (init n) sched = Some s"
  shows "(chOut_closed s \<longleftrightarrow> closer_pc s = KDone)
    \<and> (closer_pc s = KClose \<or> closer_pc s = KDone \<longrightarrow> (\<forall>i<n. cpc s ! i = CDone))
    \<and> (\<forall>i<n. \<forall>v. cpc s ! i = CSend v \<longrightarrow> \<not> chOut_closed s)
    \<and> chOut_closes s = (if closer_pc s = KDone then 1 else 0)
    \<and> (m_post (main_pc s) \<longrightarrow> chOut_closes s = 1)
    \<and> exit_status s \<noteq> Some 2
    \<and> (\<forall>a s'. step n a s = Some s' \<and> a \<noteq> Closer \<longrightarrow>
          chOut_closed s' = chOut_closed s \<and> chOut_closes s' = chOut_closes s)
    \<and> (closer_pc s \<noteq> KIdle \<longrightarrow>
          wg s = int (length (filter (\<lambda>p. p \<noteq> CDone) (cpc s))))
    \<and> (exit_status s = None \<and> closer_pc s = KWait \<longrightarrow>
          step n Closer s = (if wg s = 0 then Some (s\<lparr>closer_pc := KClose\<rparr>) else None))
    \<and> (exit_status s = None \<and> closer_pc s = KClose \<longrightarrow>
          step n Closer s
            = Some (s\<lparr>chOut_closed := True, chOut_closes := Suc (chOut_closes s),
                closer_pc := KDone\<rparr>))
    \<and> (closer_pc s = KDone \<longrightarrow> step n Closer s = None)"
proof -
  note inv = reachable_inv [OF assms(1)]
  note k = invD(8) [OF inv, unfolded closer_inv_def]
  from k have f1: "chOut_closed s \<longleftrightarrow> closer_pc s = KDone" by blast
  from k have f2: "closer_pc s = KClose \<or> closer_pc s = KDone \<longrightarrow> (\<forall>i<n. cpc s ! i = CDone)"
    by blast
  have f3: "\<forall>i<n. \<forall>v. cpc s ! i = CSend v \<longrightarrow> \<not> chOut_closed s"
  proof (intro allI impI notI)
    fix i v assume "i < n" "cpc s ! i = CSend v" "chOut_closed s"
    with closed_collectors [OF inv] show False by simp
  qed
  from k have f4: "chOut_closes s = (if closer_pc s = KDone then 1 else 0)" by blast
  have f5: "m_post (main_pc s) \<longrightarrow> chOut_closes s = 1"
    using post_closed(1) [OF inv] f1 f4 by simp
  have f6: "exit_status s \<noteq> Some 2" using no_failure [OF inv] by auto
  have f7: "\<forall>a s'. step n a s = Some s' \<and> a \<noteq> Closer \<longrightarrow>
      chOut_closed s' = chOut_closed s \<and> chOut_closes s' = chOut_closes s"
    using others_keep_chOut by blast
  have f8: "closer_pc s \<noteq> KIdle \<longrightarrow>
      wg s = int (length (filter (\<lambda>p. p \<noteq> CDone) (cpc s)))"
    using wg_counts [OF inv] by blast
  have f9: "exit_status s = None \<and> closer_pc s = KWait \<longrightarrow>
      step n Closer s = (if wg s = 0 then Some (s\<lparr>closer_pc := KClose\<rparr>) else None)"
    by (simp add: step_def closer_step_def)
  have f10: "exit_status s = None \<and> closer_pc s = KClose \<longrightarrow>
      step n Closer s
        = Some (s\<lparr>chOut_closed := True, chOut_closes := Suc (chOut_closes s),
            closer_pc := KDone\<rparr>)"
  proof
    assume a: "exit_status s = None \<and> closer_pc s = KClose"
    with f1 have "\<not> chOut_closed s" by simp
    with a show "step n Closer s
      = Some (s\<lparr>chOut_closed := True, chOut_closes := Suc (chOut_closes s),
          closer_pc := KDone\<rparr>)"
      by (simp add: step_def closer_step_def)
  qed
  have f11: "closer_pc s = KDone \<longrightarrow> step n Closer s = None"
    by (simp add: step_def closer_step_def)
  show ?thesis
    by (rule conjI [OF f1 conjI [OF f2 conjI [OF f3 conjI [OF f4 conjI [OF f5 conjI [OF f6
          conjI [OF f7 conjI [OF f8 conjI [OF f9 conjI [OF f10 f11]]]]]]]]]])
qed

theorem merge_closed_after_join_witness:
  "\<exists>s t. run NumOut (init NumOut) (three_value_run NumOut) = Some s
     \<and> chOut_closed s \<and> chOut_closes s = 1 \<and> (\<forall>i<NumOut. cpc s ! i = CDone) \<and> wg s = 0
     \<and> run NumOut (init NumOut) (second_select_run NumOut) = Some t
     \<and> exit_status t = None \<and> closer_pc t = KWait \<and> wg t = 25 \<and> \<not> chOut_closed t
     \<and> step NumOut Closer t = None"
proof -
  have "case run NumOut (init NumOut) (three_value_run NumOut) of None \<Rightarrow> False
    | Some s \<Rightarrow> closer_pc s = KDone \<and> wg s = 0"
    by code_simp
  then obtain s where r: "run NumOut (init NumOut) (three_value_run NumOut) = Some s"
    and v: "closer_pc s = KDone" and w: "wg s = 0"
    by (cases "run NumOut (init NumOut) (three_value_run NumOut)") simp_all
  have "case run NumOut (init NumOut) (second_select_run NumOut) of None \<Rightarrow> False
    | Some t \<Rightarrow> exit_status t = None \<and> closer_pc t = KWait \<and> wg t = 25"
    by code_simp
  then obtain t where r': "run NumOut (init NumOut) (second_select_run NumOut) = Some t"
    and p': "exit_status t = None" "closer_pc t = KWait" "wg t = 25"
    by (cases "run NumOut (init NumOut) (second_select_run NumOut)") simp_all
  note a = merge_closed_after_join [OF r]
  note b = merge_closed_after_join [OF r']
  from a have a1: "chOut_closed s \<longleftrightarrow> closer_pc s = KDone" by (rule conjunct1)
  from a have a2: "closer_pc s = KClose \<or> closer_pc s = KDone \<longrightarrow> (\<forall>i<NumOut. cpc s ! i = CDone)"
    by blast
  from a have a4: "chOut_closes s = (if closer_pc s = KDone then 1 else 0)" by blast
  from b have b1: "chOut_closed t \<longleftrightarrow> closer_pc t = KDone" by (rule conjunct1)
  from b have b9: "exit_status t = None \<and> closer_pc t = KWait \<longrightarrow>
      step NumOut Closer t = (if wg t = 0 then Some (t\<lparr>closer_pc := KClose\<rparr>) else None)"
    by blast
  from a1 v have c: "chOut_closed s" by simp
  from a4 v have k: "chOut_closes s = 1" by simp
  from a2 v have d: "\<forall>i<NumOut. cpc s ! i = CDone" by simp
  from b1 p' have c': "\<not> chOut_closed t" by simp
  from b9 p' have q: "step NumOut Closer t = None" by simp
  show ?thesis
    by (intro exI [of _ s] exI [of _ t] conjI r c k d w r' p' c' q)
qed



text \<open>C9. Per-worker order. The values a worker has sent on its output channel are a
  prefix of the values it has received, at most one value shorter, and equal to them once
  the worker has finished; and the values a worker has received are a subsequence of what
  the Generator sent, in the Generator's order. Across workers no order is kept: in the
  example run the Generator sends 1, 2, 3, worker 0 receives and forwards 1, 3, worker 1
  receives and forwards 2, and \<open>main\<close> reads 2, 1, 3.\<close>

theorem worker_fifo:
  assumes "run n (init n) sched = Some s" "i < n"
  shows "prefix (outs_hist s ! i) (wrecv s ! i)
    \<and> length (wrecv s ! i) \<le> Suc (length (outs_hist s ! i))
    \<and> (wpc s ! i = WDone \<longrightarrow> outs_hist s ! i = wrecv s ! i)
    \<and> subseq (wrecv s ! i) (sent s)"
proof -
  note inv = reachable_inv [OF assms(1)]
  have w: "wrecv s ! i = outs_hist s ! i @ w_pending (wpc s ! i)"
    using invD(5) [OF inv] assms(2) unfolding worker_inv_def by blast
  have p: "length (w_pending (wpc s ! i)) \<le> 1" "wpc s ! i = WDone \<longrightarrow> w_pending (wpc s ! i) = []"
    by (cases "wpc s ! i"; simp)+
  have "\<forall>i<n. subseq (wrecv (init n) ! i) (sent (init n))" by (simp add: init_def)
  from subseq_run [OF assms(1) inv_init this] assms(2)
  have s: "subseq (wrecv s ! i) (sent s)" by blast
  from w p s show ?thesis by (simp add: prefix_def)
qed

theorem worker_fifo_witness:
  "\<exists>s. run NumOut (init NumOut) (three_value_run NumOut) = Some s \<and> (0::nat) < NumOut
     \<and> sent s = [1, 2, 3] \<and> agg s = [2, 1, 3]
     \<and> wrecv s ! 0 = [1, 3] \<and> outs_hist s ! 0 = [1, 3] \<and> wpc s ! 0 = WDone
     \<and> prefix (outs_hist s ! 0) (wrecv s ! 0) \<and> subseq (wrecv s ! 0) (sent s)
     \<and> wrecv s ! 1 = [2]"
proof -
  have "case run NumOut (init NumOut) (three_value_run NumOut) of None \<Rightarrow> False
    | Some s \<Rightarrow> sent s = [1, 2, 3] \<and> agg s = [2, 1, 3] \<and> wrecv s ! 0 = [1, 3]
        \<and> wpc s ! 0 = WDone \<and> wrecv s ! 1 = [2]"
    by code_simp
  then obtain s where r: "run NumOut (init NumOut) (three_value_run NumOut) = Some s"
    and v: "sent s = [1, 2, 3]" "agg s = [2, 1, 3]" "wrecv s ! 0 = [1, 3]"
      "wpc s ! 0 = WDone" "wrecv s ! 1 = [2]"
    by (cases "run NumOut (init NumOut) (three_value_run NumOut)") simp_all
  have n: "(0::nat) < NumOut" by (simp add: NumOut_def)
  note t = worker_fifo [OF r n]
  from t have a: "prefix (outs_hist s ! 0) (wrecv s ! 0)" by (rule conjunct1)
  from t have b: "wpc s ! 0 = WDone \<longrightarrow> outs_hist s ! 0 = wrecv s ! 0" by blast
  from t have c: "subseq (wrecv s ! 0) (sent s)" by blast
  from b v have h: "outs_hist s ! 0 = [1, 3]" by simp
  show ?thesis
    by (intro exI [of _ s] conjI r n v h a c)
qed

text \<open>C10. The order of the checks, and the destructive partition check. Take any state in
  which \<open>main\<close> stands at the report, with \<open>n\<close> counters. If the sums differ, the second
  step of \<open>main\<close> ends the process at the sum check with the diagnostic of the sums,
  whatever the counts and the counters are. If the sums agree and the counts differ, the
  third step ends it at the count check with the diagnostic of the counts. If both agree,
  the partition loop runs: its \<open>n\<close> steps subtract every \<open>amounts[i]\<close> from \<open>inputCount\<close>,
  which is left as \<open>inputCount - sum(amounts)\<close> in 64-bit arithmetic; the check after it
  compares that remainder with 0, which is the test \<open>sum(amounts) = inputCount\<close>; it ends
  the process with the diagnostic of the split after \<open>n + 5\<close> steps, or lets \<open>main\<close>
  return with status 0 after \<open>n + 6\<close>. In the first two cases \<open>inputCount\<close> is not
  changed. Whatever the goroutines do from that state, at most one diagnostic is added
  to the output.\<close>

theorem checks_in_order:
  assumes "main_pc s = MPrint" "exit_status s = None" "length (amounts s) = n"
  shows "(inputSum s \<noteq> sum_res s \<longrightarrow>
        run n s (replicate 2 Main)
          = Some (s\<lparr>printed := printed s
                @ [Counts (inputCount s) (count_res s), Sums (inputSum s) (sum_res s),
                   Breakdown (amounts s), FatalSums (inputSum s) (sum_res s)],
              main_pc := MCheckSum, exit_status := Some 1\<rparr>))
    \<and> (inputSum s = sum_res s \<and> inputCount s \<noteq> count_res s \<longrightarrow>
        run n s (replicate 3 Main)
          = Some (s\<lparr>printed := printed s
                @ [Counts (inputCount s) (count_res s), Sums (inputSum s) (sum_res s),
                   Breakdown (amounts s), FatalCounts (inputCount s) (count_res s)],
              main_pc := MCheckCount, exit_status := Some 1\<rparr>))
    \<and> (inputSum s = sum_res s \<and> inputCount s = count_res s
          \<and> sum_list (amounts s) \<noteq> inputCount s \<longrightarrow>
        run n s (replicate (n + 5) Main)
          = Some (s\<lparr>printed := printed s
                @ [Counts (inputCount s) (count_res s), Sums (inputSum s) (sum_res s),
                   Breakdown (amounts s), FatalSplit],
              inputCount := inputCount s - sum_list (amounts s),
              main_pc := MCheckPart, exit_status := Some 1\<rparr>))
    \<and> (inputSum s = sum_res s \<and> inputCount s = count_res s
          \<and> sum_list (amounts s) = inputCount s \<longrightarrow>
        run n s (replicate (n + 6) Main)
          = Some (s\<lparr>printed := printed s
                @ [Counts (inputCount s) (count_res s), Sums (inputSum s) (sum_res s),
                   Breakdown (amounts s)],
              inputCount := 0, main_pc := MReturn, ctx_done := True,
              exit_status := Some 0\<rparr>))
    \<and> (inputSum s = sum_res s \<and> inputCount s = count_res s \<longrightarrow>
        run n s (replicate (n + 3) Main)
          = Some (s\<lparr>printed := printed s
                @ [Counts (inputCount s) (count_res s), Sums (inputSum s) (sum_res s),
                   Breakdown (amounts s)],
              inputCount := inputCount s - sum_list (amounts s), main_pc := MPart n\<rparr>))
    \<and> (inputCount s - sum_list (amounts s) = 0 \<longleftrightarrow> sum_list (amounts s) = inputCount s)
    \<and> (\<forall>sched s'. run n s sched = Some s' \<longrightarrow>
          length (filter is_diagnostic (printed s'))
            \<le> Suc (length (filter is_diagnostic (printed s))))"
proof -
  note t = main_tail [OF assms]
  let ?r = "[Counts (inputCount s) (count_res s), Sums (inputSum s) (sum_res s),
    Breakdown (amounts s)]"
  have f1: "inputSum s \<noteq> sum_res s \<longrightarrow>
      run n s (replicate 2 Main)
        = Some (s\<lparr>printed := printed s
              @ [Counts (inputCount s) (count_res s), Sums (inputSum s) (sum_res s),
                 Breakdown (amounts s), FatalSums (inputSum s) (sum_res s)],
            main_pc := MCheckSum, exit_status := Some 1\<rparr>)"
    using t(1) by (simp add: fatal_def)
  have f2: "inputSum s = sum_res s \<and> inputCount s \<noteq> count_res s \<longrightarrow>
      run n s (replicate 3 Main)
        = Some (s\<lparr>printed := printed s
              @ [Counts (inputCount s) (count_res s), Sums (inputSum s) (sum_res s),
                 Breakdown (amounts s), FatalCounts (inputCount s) (count_res s)],
            main_pc := MCheckCount, exit_status := Some 1\<rparr>)"
  proof
    assume "inputSum s = sum_res s \<and> inputCount s \<noteq> count_res s"
    then have "inputSum s = sum_res s" "inputCount s \<noteq> count_res s" by blast+
    from t(2) [OF this] show "run n s (replicate 3 Main)
        = Some (s\<lparr>printed := printed s
              @ [Counts (inputCount s) (count_res s), Sums (inputSum s) (sum_res s),
                 Breakdown (amounts s), FatalCounts (inputCount s) (count_res s)],
            main_pc := MCheckCount, exit_status := Some 1\<rparr>)"
      by (simp add: fatal_def)
  qed
  have f3: "inputSum s = sum_res s \<and> inputCount s = count_res s
        \<and> sum_list (amounts s) \<noteq> inputCount s \<longrightarrow>
      run n s (replicate (n + 5) Main)
        = Some (s\<lparr>printed := printed s
              @ [Counts (inputCount s) (count_res s), Sums (inputSum s) (sum_res s),
                 Breakdown (amounts s), FatalSplit],
            inputCount := inputCount s - sum_list (amounts s),
            main_pc := MCheckPart, exit_status := Some 1\<rparr>)"
  proof
    assume "inputSum s = sum_res s \<and> inputCount s = count_res s
        \<and> sum_list (amounts s) \<noteq> inputCount s"
    then have h: "inputSum s = sum_res s" "inputCount s = count_res s"
      and "sum_list (amounts s) \<noteq> inputCount s" by blast+
    then have "inputCount s - sum_list (amounts s) \<noteq> 0" by auto
    from t(3) [OF h this] show "run n s (replicate (n + 5) Main)
        = Some (s\<lparr>printed := printed s
              @ [Counts (inputCount s) (count_res s), Sums (inputSum s) (sum_res s),
                 Breakdown (amounts s), FatalSplit],
            inputCount := inputCount s - sum_list (amounts s),
            main_pc := MCheckPart, exit_status := Some 1\<rparr>)"
      by (simp add: fatal_def)
  qed
  have f4: "inputSum s = sum_res s \<and> inputCount s = count_res s
        \<and> sum_list (amounts s) = inputCount s \<longrightarrow>
      run n s (replicate (n + 6) Main)
        = Some (s\<lparr>printed := printed s
              @ [Counts (inputCount s) (count_res s), Sums (inputSum s) (sum_res s),
                 Breakdown (amounts s)],
            inputCount := 0, main_pc := MReturn, ctx_done := True,
            exit_status := Some 0\<rparr>)"
  proof
    assume "inputSum s = sum_res s \<and> inputCount s = count_res s
        \<and> sum_list (amounts s) = inputCount s"
    then have h: "inputSum s = sum_res s" "inputCount s = count_res s"
      and e: "sum_list (amounts s) = inputCount s" by blast+
    then have z: "inputCount s - sum_list (amounts s) = 0" by simp
    from t(4) [OF h z] z show "run n s (replicate (n + 6) Main)
        = Some (s\<lparr>printed := printed s
              @ [Counts (inputCount s) (count_res s), Sums (inputSum s) (sum_res s),
                 Breakdown (amounts s)],
            inputCount := 0, main_pc := MReturn, ctx_done := True,
            exit_status := Some 0\<rparr>)"
      by simp
  qed
  have f5: "inputSum s = sum_res s \<and> inputCount s = count_res s \<longrightarrow>
      run n s (replicate (n + 3) Main)
        = Some (s\<lparr>printed := printed s
              @ [Counts (inputCount s) (count_res s), Sums (inputSum s) (sum_res s),
                 Breakdown (amounts s)],
            inputCount := inputCount s - sum_list (amounts s), main_pc := MPart n\<rparr>)"
  proof
    assume h: "inputSum s = sum_res s \<and> inputCount s = count_res s"
    let ?p = "s\<lparr>printed := printed s @ ?r, main_pc := MPart 0\<rparr>"
    have pre: "run n s [Main, Main, Main] = Some ?p"
      using assms h by (simp add: step_def main_step_def)
    have loop: "run n ?p (replicate n Main)
      = Some (?p\<lparr>inputCount := inputCount ?p - sum_list (drop 0 (amounts ?p)),
           main_pc := MPart n\<rparr>)"
      using assms by (intro part_loop) simp_all
    have e: "replicate (n + 3) Main = [Main, Main, Main] @ replicate n Main"
      by (simp add: replicate_add replicate_snoc eval_nat_numeral)
    have "run n s (replicate (n + 3) Main) = run n ?p (replicate n Main)"
      unfolding e run_append pre by simp
    with loop show "run n s (replicate (n + 3) Main)
        = Some (s\<lparr>printed := printed s
              @ [Counts (inputCount s) (count_res s), Sums (inputSum s) (sum_res s),
                 Breakdown (amounts s)],
            inputCount := inputCount s - sum_list (amounts s), main_pc := MPart n\<rparr>)"
      by simp
  qed
  have f6: "inputCount s - sum_list (amounts s) = 0 \<longleftrightarrow> sum_list (amounts s) = inputCount s"
    by auto
  have f7: "\<forall>sched s'. run n s sched = Some s' \<longrightarrow>
      length (filter is_diagnostic (printed s'))
        \<le> Suc (length (filter is_diagnostic (printed s)))"
  proof (intro allI impI)
    fix sched s'
    assume "run n s sched = Some s'"
    from diag_run [OF this]
    show "length (filter is_diagnostic (printed s'))
        \<le> Suc (length (filter is_diagnostic (printed s)))" by auto
  qed
  show ?thesis
    by (rule conjI [OF f1 conjI [OF f2 conjI [OF f3 conjI [OF f4 conjI [OF f5
          conjI [OF f6 f7]]]]]])
qed

theorem checks_in_order_witness:
  "\<exists>u v w u' v' w'.
     u = (init NumOut)\<lparr>main_pc := MPrint, inputSum := 6, sum_res := 5, inputCount := 3,
           count_res := 2, amounts := (replicate NumOut 0)[0 := 4]\<rparr>
     \<and> main_pc u = MPrint \<and> exit_status u = None \<and> length (amounts u) = NumOut
     \<and> run NumOut u (replicate 2 Main) = Some u'
     \<and> exit_status u' = Some 1 \<and> inputCount u' = 3
     \<and> printed u' = [Counts 3 2, Sums 6 5, Breakdown ((replicate NumOut 0)[0 := 4]),
           FatalSums 6 5]
     \<and> v = u\<lparr>sum_res := 6\<rparr>
     \<and> run NumOut v (replicate 3 Main) = Some v'
     \<and> exit_status v' = Some 1 \<and> inputCount v' = 3
     \<and> printed v' = [Counts 3 2, Sums 6 6, Breakdown ((replicate NumOut 0)[0 := 4]),
           FatalCounts 3 2]
     \<and> w = v\<lparr>count_res := 3\<rparr>
     \<and> run NumOut w (replicate (NumOut + 5) Main) = Some w'
     \<and> exit_status w' = Some 1 \<and> inputCount w' = - 1
     \<and> printed w' = [Counts 3 3, Sums 6 6, Breakdown ((replicate NumOut 0)[0 := 4]),
           FatalSplit]"
proof -
  define u where "u = (init NumOut)\<lparr>main_pc := MPrint, inputSum := 6, sum_res := 5,
    inputCount := 3, count_res := 2, amounts := (replicate NumOut 0)[0 := 4]\<rparr>"
  define v where "v = u\<lparr>sum_res := 6\<rparr>"
  define w where "w = v\<lparr>count_res := 3\<rparr>"
  have hu: "main_pc u = MPrint" "exit_status u = None" "length (amounts u) = NumOut"
    by (simp_all add: u_def init_def)
  have hv: "main_pc v = MPrint" "exit_status v = None" "length (amounts v) = NumOut"
    using hu by (simp_all add: v_def)
  have hw: "main_pc w = MPrint" "exit_status w = None" "length (amounts w) = NumOut"
    using hv by (simp_all add: w_def)
  have au: "inputSum u = 6" "sum_res u = 5" "inputCount u = 3" "count_res u = 2"
    "amounts u = (replicate NumOut 0)[0 := 4]" "printed u = []"
    by (simp_all add: u_def init_def)
  have av: "inputSum v = 6" "sum_res v = 6" "inputCount v = 3" "count_res v = 2"
    "amounts v = (replicate NumOut 0)[0 := 4]" "printed v = []"
    using au by (simp_all add: v_def)
  have aw: "inputSum w = 6" "sum_res w = 6" "inputCount w = 3" "count_res w = 3"
    "amounts w = (replicate NumOut 0)[0 := 4]" "printed w = []"
    using av by (simp_all add: w_def)
  have sm: "sum_list ((replicate NumOut 0)[0 := 4 :: int64]) = 4"
    by code_simp
  let ?u' = "u\<lparr>printed := printed u
        @ [Counts (inputCount u) (count_res u), Sums (inputSum u) (sum_res u),
           Breakdown (amounts u), FatalSums (inputSum u) (sum_res u)],
      main_pc := MCheckSum, exit_status := Some 1\<rparr>"
  let ?v' = "v\<lparr>printed := printed v
        @ [Counts (inputCount v) (count_res v), Sums (inputSum v) (sum_res v),
           Breakdown (amounts v), FatalCounts (inputCount v) (count_res v)],
      main_pc := MCheckCount, exit_status := Some 1\<rparr>"
  let ?w' = "w\<lparr>printed := printed w
        @ [Counts (inputCount w) (count_res w), Sums (inputSum w) (sum_res w),
           Breakdown (amounts w), FatalSplit],
      inputCount := inputCount w - sum_list (amounts w),
      main_pc := MCheckPart, exit_status := Some 1\<rparr>"
  from checks_in_order [OF hu] have "inputSum u \<noteq> sum_res u \<longrightarrow>
      run NumOut u (replicate 2 Main) = Some ?u'" by (rule conjunct1)
  with au have ru: "run NumOut u (replicate 2 Main) = Some ?u'" by simp
  from checks_in_order [OF hv] have "inputSum v = sum_res v \<and> inputCount v \<noteq> count_res v \<longrightarrow>
      run NumOut v (replicate 3 Main) = Some ?v'" by blast
  with av have rv: "run NumOut v (replicate 3 Main) = Some ?v'" by simp
  from checks_in_order [OF hw] have "inputSum w = sum_res w \<and> inputCount w = count_res w
        \<and> sum_list (amounts w) \<noteq> inputCount w \<longrightarrow>
      run NumOut w (replicate (NumOut + 5) Main) = Some ?w'" by blast
  with aw sm have rw: "run NumOut w (replicate (NumOut + 5) Main) = Some ?w'" by simp
  have xu: "exit_status ?u' = Some 1" "inputCount ?u' = 3"
    "printed ?u' = [Counts 3 2, Sums 6 5, Breakdown ((replicate NumOut 0)[0 := 4]),
       FatalSums 6 5]"
    using au by simp_all
  have xv: "exit_status ?v' = Some 1" "inputCount ?v' = 3"
    "printed ?v' = [Counts 3 2, Sums 6 6, Breakdown ((replicate NumOut 0)[0 := 4]),
       FatalCounts 3 2]"
    using av by simp_all
  have xw: "exit_status ?w' = Some 1" "inputCount ?w' = - 1"
    "printed ?w' = [Counts 3 3, Sums 6 6, Breakdown ((replicate NumOut 0)[0 := 4]),
       FatalSplit]"
    using aw sm by simp_all
  show ?thesis
    by (intro exI [of _ u] exI [of _ v] exI [of _ w] exI [of _ ?u'] exI [of _ ?v']
        exI [of _ ?w'] conjI u_def hu ru xu v_def rv xv w_def rw xw)
qed

end
